theory Spec2Isabelle
  imports Main "HOL-Library.Word"
begin

section \<open>QuantumPredictor: an encrypted multi-option tally\<close>

text \<open>
  A shallow embedding of \<^verbatim>\<open>contracts/QuantumPredictor.sol\<close>. Contract storage is a
  record that every external function takes and returns; a failed \<^verbatim>\<open>require\<close> is the
  left summand of the result, carrying which requirement failed. Array indices, array
  lengths and prediction ids are \<^typ>\<open>nat\<close>: they are bounded by the length of a storage
  array, which never comes near \<open>2 ^ 256\<close>. Cleartexts behind \<^verbatim>\<open>euint32\<close> handles are
  32-bit words, so homomorphic addition wraps at \<open>2 ^ 32\<close>.
\<close>

subsection \<open>Basic types\<close>

type_synonym address = "160 word"
type_synonym uint32 = "32 word"
type_synonym bytes = "8 word list"

text \<open>A ciphertext handle is the \<^verbatim>\<open>bytes32\<close> that \<^verbatim>\<open>euint32\<close>, \<^verbatim>\<open>ebool\<close> and
  \<^verbatim>\<open>externalEuint32\<close> wrap; handle \<open>0\<close> is the uninitialised one.\<close>

type_synonym handle = nat
type_synonym euint32 = handle
type_synonym ebool = handle
type_synonym externalEuint32 = handle

text \<open>The revert reasons, one per \<^verbatim>\<open>require\<close> message of the contract, the failure of the
  input proof inside \<^verbatim>\<open>FHE.fromExternal\<close>, and Solidity's out-of-bounds panic.\<close>

datatype error =
    Name_required
  | Options_must_be_2_4
  | Empty_option
  | Invalid_prediction
  | Prediction_closed
  | Already_voted
  | Already_closed
  | Invalid_proof
  | Panic

text \<open>The named failure conditions of the specification, and the revert reasons each one
  stands for.\<close>

datatype condition =
    InvalidInput
  | InvalidPrediction
  | BallotClosed
  | AlreadyVoted
  | AlreadyClosed
  | InvalidProof
  | ArrayOutOfBounds

fun condition_of :: "error \<Rightarrow> condition" where
  "condition_of Name_required = InvalidInput"
| "condition_of Options_must_be_2_4 = InvalidInput"
| "condition_of Empty_option = InvalidInput"
| "condition_of Invalid_prediction = InvalidPrediction"
| "condition_of Prediction_closed = BallotClosed"
| "condition_of Already_voted = AlreadyVoted"
| "condition_of Already_closed = AlreadyClosed"
| "condition_of Invalid_proof = InvalidProof"
| "condition_of Panic = ArrayOutOfBounds"

subsection \<open>The encrypted-value collaborator\<close>

text \<open>
  The operations the collaborator is asked to perform, in call order. Each entry keeps
  the handles and the public scalar of the call; \<open>shape\<close> below forgets the handles.
\<close>

datatype fhe_op =
    OpTrivialEncrypt uint32 handle
  | OpFromExternal externalEuint32 handle
  | OpEq handle uint32 handle
  | OpSelect handle handle handle handle
  | OpAdd handle handle handle
  | OpAllow handle address
  | OpMakePubliclyDecryptable handle

datatype op_shape =
    TrivialEncrypt uint32
  | FromExternal
  | Eq uint32
  | Select
  | Add
  | Allow
  | MakePubliclyDecryptable

fun shape :: "fhe_op \<Rightarrow> op_shape" where
  "shape (OpTrivialEncrypt v h) = TrivialEncrypt v"
| "shape (OpFromExternal e h) = FromExternal"
| "shape (OpEq a v h) = Eq v"
| "shape (OpSelect c a b h) = Select"
| "shape (OpAdd a b h) = Add"
| "shape (OpAllow h p) = Allow"
| "shape (OpMakePubliclyDecryptable h) = MakePubliclyDecryptable"

text \<open>
  The collaborator's state: the next unused handle, the cleartext behind every
  \<^verbatim>\<open>euint32\<close> and \<^verbatim>\<open>ebool\<close> handle (known to the collaborator only), the input
  verifier (the cleartext an external input attests to under a proof, if the proof is
  good), the operate-rights, the publicly decryptable handles and the log of calls.
\<close>

record FHE =
  nextHandle :: handle
  clear32 :: "handle \<Rightarrow> uint32"
  clearBool :: "handle \<Rightarrow> bool"
  verifier :: "externalEuint32 \<Rightarrow> bytes \<Rightarrow> uint32 option"
  allowed :: "(handle \<times> address) set"
  publiclyDecryptable :: "handle set"
  oplog :: "fhe_op list"

text \<open>Modelled from the spec: the library \<^verbatim>\<open>@fhevm/solidity/lib/FHE.sol\<close> is imported by
  the contract and is not among its sources. \<open>zero()\<close> and \<open>one()\<close> of the specification
  are \<^verbatim>\<open>FHE.asEuint32(0)\<close> and \<^verbatim>\<open>FHE.asEuint32(1)\<close>: a new handle whose cleartext is the
  given scalar.\<close>

definition FHE_asEuint32 :: "uint32 \<Rightarrow> FHE \<Rightarrow> euint32 \<times> FHE" where
  "FHE_asEuint32 v f =
     (let h = nextHandle f
      in (h, f\<lparr>nextHandle := h + 1,
               clear32 := (clear32 f)(h := v),
               oplog := oplog f @ [OpTrivialEncrypt v h]\<rparr>))"

text \<open>Modelled from the spec: \<open>decodeExternal(input, proof)\<close>, in the source
  \<^verbatim>\<open>FHE.fromExternal\<close>, which is not among the sources. It fails on a bad proof and
  otherwise yields a new handle for the attested cleartext.\<close>

definition FHE_fromExternal :: "externalEuint32 \<Rightarrow> bytes \<Rightarrow> FHE \<Rightarrow> error + (euint32 \<times> FHE)" where
  "FHE_fromExternal e inputProof f =
     (case verifier f e inputProof of
        None \<Rightarrow> Inl Invalid_proof
      | Some v \<Rightarrow>
          (let h = nextHandle f
           in Inr (h, f\<lparr>nextHandle := h + 1,
                        clear32 := (clear32 f)(h := v),
                        oplog := oplog f @ [OpFromExternal e h]\<rparr>)))"

text \<open>Modelled from the spec: \<open>equals(handle, plainInt)\<close>, in the source \<^verbatim>\<open>FHE.eq\<close> with
  a scalar right operand, which is not among the sources. The new boolean handle holds
  whether the cleartext equals the scalar.\<close>

definition FHE_eq :: "euint32 \<Rightarrow> uint32 \<Rightarrow> FHE \<Rightarrow> ebool \<times> FHE" where
  "FHE_eq a v f =
     (let h = nextHandle f
      in (h, f\<lparr>nextHandle := h + 1,
               clearBool := (clearBool f)(h := (clear32 f a = v)),
               oplog := oplog f @ [OpEq a v h]\<rparr>))"

text \<open>Modelled from the spec: \<open>select(boolHandle, a, b)\<close>, in the source \<^verbatim>\<open>FHE.select\<close>,
  which is not among the sources. The new handle holds the cleartext of \<open>a\<close> where the
  condition is true and that of \<open>b\<close> otherwise.\<close>

definition FHE_select :: "ebool \<Rightarrow> euint32 \<Rightarrow> euint32 \<Rightarrow> FHE \<Rightarrow> euint32 \<times> FHE" where
  "FHE_select c a b f =
     (let h = nextHandle f
      in (h, f\<lparr>nextHandle := h + 1,
               clear32 := (clear32 f)(h := (if clearBool f c then clear32 f a else clear32 f b)),
               oplog := oplog f @ [OpSelect c a b h]\<rparr>))"

text \<open>Modelled from the spec: \<open>add(a, b)\<close>, in the source \<^verbatim>\<open>FHE.add\<close>, which is not among
  the sources. The new handle holds the 32-bit sum of the two cleartexts.\<close>

definition FHE_add :: "euint32 \<Rightarrow> euint32 \<Rightarrow> FHE \<Rightarrow> euint32 \<times> FHE" where
  "FHE_add a b f =
     (let h = nextHandle f
      in (h, f\<lparr>nextHandle := h + 1,
               clear32 := (clear32 f)(h := clear32 f a + clear32 f b),
               oplog := oplog f @ [OpAdd a b h]\<rparr>))"

text \<open>Modelled from the spec: \<open>grantOperate(handle, principal)\<close>; \<^verbatim>\<open>FHE.allowThis\<close> of the
  source, which is not among the sources, grants the right to the contract itself.\<close>

definition FHE_allow :: "handle \<Rightarrow> address \<Rightarrow> FHE \<Rightarrow> FHE" where
  "FHE_allow h p f = f\<lparr>allowed := insert (h, p) (allowed f), oplog := oplog f @ [OpAllow h p]\<rparr>"

definition FHE_allowThis :: "address \<Rightarrow> handle \<Rightarrow> FHE \<Rightarrow> FHE" where
  "FHE_allowThis this h f = FHE_allow h this f"

text \<open>Modelled from the spec: \<open>flagPubliclyDecryptable(handle)\<close>, in the source
  \<^verbatim>\<open>FHE.makePubliclyDecryptable\<close>, which is not among the sources. It flags the handle
  and hands the same handle back.\<close>

definition FHE_makePubliclyDecryptable :: "euint32 \<Rightarrow> FHE \<Rightarrow> euint32 \<times> FHE" where
  "FHE_makePubliclyDecryptable h f =
     (h, f\<lparr>publiclyDecryptable := insert h (publiclyDecryptable f),
            oplog := oplog f @ [OpMakePubliclyDecryptable h]\<rparr>)"

text \<open>Modelled from the spec: the decryption service, which is outside the contract. It
  reveals the cleartext of a handle only once the handle is flagged publicly
  decryptable.\<close>

definition publicDecrypt :: "FHE \<Rightarrow> handle \<Rightarrow> uint32 option" where
  "publicDecrypt f h = (if h \<in> publiclyDecryptable f then Some (clear32 f h) else None)"

subsection \<open>Contract storage\<close>

record Prediction =
  name :: string
  options :: "string list"
  encryptedCounts :: "euint32 list"
  isOpen :: bool
  createdAt :: nat

datatype event =
    PredictionCreated nat address string "string list"
  | VoteSubmitted nat address handle
  | PredictionClosed nat

text \<open>\<open>predictions\<close> and \<open>hasVoted\<close> are the storage variables \<^verbatim>\<open>_predictions\<close> and
  \<^verbatim>\<open>_hasVoted\<close>; \<open>thisAddress\<close> is \<^verbatim>\<open>address(this)\<close>; \<open>events\<close> is the log the
  \<^verbatim>\<open>emit\<close> statements append to; \<open>fhe\<close> is the collaborator the library calls reach.\<close>

record contract =
  predictions :: "Prediction list"
  hasVoted :: "nat \<Rightarrow> address \<Rightarrow> bool"
  thisAddress :: address
  events :: "event list"
  fhe :: FHE

text \<open>The contract as deployed at an address, against a collaborator with a given input
  verifier.\<close>

definition deployed :: "address \<Rightarrow> (externalEuint32 \<Rightarrow> bytes \<Rightarrow> uint32 option) \<Rightarrow> contract" where
  "deployed this v =
     \<lparr>predictions = [],
      hasVoted = (\<lambda>_ _. False),
      thisAddress = this,
      events = [],
      fhe = \<lparr>nextHandle = 1,
             clear32 = (\<lambda>_. 0),
             clearBool = (\<lambda>_. False),
             verifier = v,
             allowed = {},
             publiclyDecryptable = {},
             oplog = []\<rparr>\<rparr>"

subsection \<open>createPrediction\<close>

text \<open>The first loop of \<^verbatim>\<open>createPrediction\<close>: every option label has a byte.\<close>

function requireOptions :: "nat \<Rightarrow> string list \<Rightarrow> error + unit" where
  "requireOptions i opts =
     (if i < length opts
      then (if length (opts ! i) > 0 then requireOptions (i + 1) opts else Inl Empty_option)
      else Inr ())"
  by pat_completeness auto
termination
  by (relation "measure (\<lambda>(i, opts). length opts - i)") auto

declare requireOptions.simps [simp del]

text \<open>The second loop: slot \<open>i\<close> of the two storage arrays is written, the counter with a
  fresh encryption of zero that the contract is then allowed to operate on. An index past
  the end of either array is Solidity's panic.\<close>

function initOptions :: "address \<Rightarrow> nat \<Rightarrow> string list \<Rightarrow> Prediction \<Rightarrow> FHE \<Rightarrow> error + (Prediction \<times> FHE)" where
  "initOptions this i opts p f =
     (if i < length opts
      then (if i < length (options p) \<and> i < length (encryptedCounts p)
            then (let p1 = p\<lparr>options := (options p)[i := opts ! i]\<rparr>;
                      (z, f1) = FHE_asEuint32 0 f;
                      p2 = p1\<lparr>encryptedCounts := (encryptedCounts p1)[i := z]\<rparr>;
                      f2 = FHE_allowThis this (encryptedCounts p2 ! i) f1
                  in initOptions this (i + 1) opts p2 f2)
            else Inl Panic)
      else Inr (p, f))"
  by pat_completeness auto
termination
  by (relation "measure (\<lambda>(this, i, opts, p, f). length opts - i)") auto

declare initOptions.simps [simp del]

definition createPrediction ::
  "address \<Rightarrow> nat \<Rightarrow> string \<Rightarrow> string list \<Rightarrow> contract \<Rightarrow> error + (nat \<times> contract)" where
  "createPrediction msg_sender block_timestamp nm opts s =
     (if \<not> length nm > 0 then Inl Name_required
      else if \<not> (length opts \<ge> 2 \<and> length opts \<le> 4) then Inl Options_must_be_2_4
      else case requireOptions 0 opts of
        Inl e \<Rightarrow> Inl e
      | Inr _ \<Rightarrow>
          (let predictionId = length (predictions s);
               prediction = \<lparr>name = nm,
                             options = replicate (length opts) [],
                             encryptedCounts = replicate (length opts) 0,
                             isOpen = True,
                             createdAt = block_timestamp\<rparr>
           in case initOptions (thisAddress s) 0 opts prediction (fhe s) of
                Inl e \<Rightarrow> Inl e
              | Inr (prediction', f) \<Rightarrow>
                  Inr (predictionId,
                       s\<lparr>predictions := predictions s @ [prediction'],
                         fhe := f,
                         events := events s @ [PredictionCreated predictionId msg_sender nm opts]\<rparr>)))"

subsection \<open>submitChoice\<close>

text \<open>The loop of \<^verbatim>\<open>submitChoice\<close> over the counters of one prediction. \<open>of_nat i\<close> is
  the cast \<^verbatim>\<open>uint32(i)\<close>.\<close>

function tally :: "address \<Rightarrow> euint32 \<Rightarrow> euint32 \<Rightarrow> euint32 \<Rightarrow> nat \<Rightarrow> euint32 list \<Rightarrow> FHE \<Rightarrow> euint32 list \<times> FHE" where
  "tally this choice one zero i counts f =
     (if i < length counts
      then (let (matches, f1) = FHE_eq choice (of_nat i) f;
                (increment, f2) = FHE_select matches one zero f1;
                (added, f3) = FHE_add (counts ! i) increment f2;
                counts' = counts[i := added];
                f4 = FHE_allowThis this (counts' ! i) f3
            in tally this choice one zero (i + 1) counts' f4)
      else (counts, f))"
  by pat_completeness auto
termination
  by (relation "measure (\<lambda>(this, choice, one, zero, i, counts, f). length counts - i)")
     (auto simp: FHE_eq_def FHE_select_def FHE_add_def Let_def split: prod.splits)

declare tally.simps [simp del]

text \<open>What one pass through the body of that loop asks of the collaborator, for the
  counter \<open>c\<close> of slot \<open>i\<close>.\<close>

definition iteration :: "address \<Rightarrow> euint32 \<Rightarrow> euint32 \<Rightarrow> euint32 \<Rightarrow> nat \<Rightarrow> euint32 \<Rightarrow> FHE \<Rightarrow> FHE" where
  "iteration this choice one zero i c f =
     (let (matches, f1) = FHE_eq choice (of_nat i) f;
          (increment, f2) = FHE_select matches one zero f1;
          (added, f3) = FHE_add c increment f2
      in FHE_allowThis this added f3)"

definition submitChoice ::
  "address \<Rightarrow> nat \<Rightarrow> externalEuint32 \<Rightarrow> bytes \<Rightarrow> contract \<Rightarrow> error + contract" where
  "submitChoice msg_sender predictionId encryptedChoice inputProof s =
     (if \<not> predictionId < length (predictions s) then Inl Invalid_prediction
      else let prediction = predictions s ! predictionId in
        if \<not> isOpen prediction then Inl Prediction_closed
        else if hasVoted s predictionId msg_sender then Inl Already_voted
        else case FHE_fromExternal encryptedChoice inputProof (fhe s) of
          Inl e \<Rightarrow> Inl e
        | Inr (choice, f0) \<Rightarrow>
            (let (one, f1) = FHE_asEuint32 1 f0;
                 (zero, f2) = FHE_asEuint32 0 f1;
                 (counts, f3) = tally (thisAddress s) choice one zero 0 (encryptedCounts prediction) f2
             in Inr (s\<lparr>predictions :=
                          (predictions s)[predictionId := prediction\<lparr>encryptedCounts := counts\<rparr>],
                        hasVoted :=
                          (hasVoted s)(predictionId := (hasVoted s predictionId)(msg_sender := True)),
                        fhe := f3,
                        events := events s @ [VoteSubmitted predictionId msg_sender choice]\<rparr>)))"

subsection \<open>closePrediction\<close>

function publish :: "nat \<Rightarrow> euint32 list \<Rightarrow> FHE \<Rightarrow> euint32 list \<times> FHE" where
  "publish i counts f =
     (if i < length counts
      then (let (h, f1) = FHE_makePubliclyDecryptable (counts ! i) f
            in publish (i + 1) (counts[i := h]) f1)
      else (counts, f))"
  by pat_completeness auto
termination
  by (relation "measure (\<lambda>(i, counts, f). length counts - i)")
     (auto simp: FHE_makePubliclyDecryptable_def)

declare publish.simps [simp del]

definition closePrediction :: "nat \<Rightarrow> contract \<Rightarrow> error + contract" where
  "closePrediction predictionId s =
     (if \<not> predictionId < length (predictions s) then Inl Invalid_prediction
      else let prediction = predictions s ! predictionId in
        if \<not> isOpen prediction then Inl Already_closed
        else (let prediction1 = prediction\<lparr>isOpen := False\<rparr>;
                  (counts, f) = publish 0 (encryptedCounts prediction1) (fhe s)
              in Inr (s\<lparr>predictions :=
                           (predictions s)[predictionId := prediction1\<lparr>encryptedCounts := counts\<rparr>],
                         fhe := f,
                         events := events s @ [PredictionClosed predictionId]\<rparr>)))"

subsection \<open>The views\<close>

text \<open>The copy loops of the getters, from a storage array into a memory array that was
  allocated beforehand; writing past its end is Solidity's panic.\<close>

function copyArray :: "nat \<Rightarrow> 'a list \<Rightarrow> 'a list \<Rightarrow> error + 'a list" where
  "copyArray i src dst =
     (if i < length src
      then (if i < length dst then copyArray (i + 1) src (dst[i := src ! i]) else Inl Panic)
      else Inr dst)"
  by pat_completeness auto
termination
  by (relation "measure (\<lambda>(i, src, dst). length src - i)") auto

declare copyArray.simps [simp del]

definition getPrediction ::
  "nat \<Rightarrow> contract \<Rightarrow> error + (string \<times> string list \<times> euint32 list \<times> bool \<times> nat)" where
  "getPrediction predictionId s =
     (if \<not> predictionId < length (predictions s) then Inl Invalid_prediction
      else let prediction = predictions s ! predictionId in
        case copyArray 0 (options prediction) (replicate (length (options prediction)) []) of
          Inl e \<Rightarrow> Inl e
        | Inr opts \<Rightarrow>
            (case copyArray 0 (encryptedCounts prediction)
                    (replicate (length (encryptedCounts prediction)) 0) of
               Inl e \<Rightarrow> Inl e
             | Inr counts \<Rightarrow>
                 Inr (name prediction, opts, counts, isOpen prediction, createdAt prediction)))"

definition getEncryptedCounts :: "nat \<Rightarrow> contract \<Rightarrow> error + euint32 list" where
  "getEncryptedCounts predictionId s =
     (if \<not> predictionId < length (predictions s) then Inl Invalid_prediction
      else let prediction = predictions s ! predictionId in
        copyArray 0 (encryptedCounts prediction) (replicate (length (encryptedCounts prediction)) 0))"

definition hasAddressVoted :: "nat \<Rightarrow> address \<Rightarrow> contract \<Rightarrow> error + bool" where
  "hasAddressVoted predictionId user s =
     (if \<not> predictionId < length (predictions s) then Inl Invalid_prediction
      else Inr (hasVoted s predictionId user))"

definition getPredictionCount :: "contract \<Rightarrow> error + nat" where
  "getPredictionCount s = Inr (length (predictions s))"

subsection \<open>Transactions\<close>

text \<open>A call to one of the external functions, with \<^verbatim>\<open>msg.sender\<close> and
  \<^verbatim>\<open>block.timestamp\<close> where the function reads them.\<close>

datatype call =
    CreatePrediction address nat string "string list"
  | SubmitChoice address nat externalEuint32 bytes
  | ClosePrediction nat
  | GetPrediction nat
  | GetEncryptedCounts nat
  | HasAddressVoted nat address
  | GetPredictionCount

text \<open>The storage a transaction leaves behind: a revert leaves the storage it found, and
  so does a \<^verbatim>\<open>view\<close> function, which has no storage to hand back.\<close>

fun execute :: "call \<Rightarrow> contract \<Rightarrow> contract" where
  "execute (CreatePrediction msg_sender block_timestamp nm opts) s =
     (case createPrediction msg_sender block_timestamp nm opts s of
        Inl e \<Rightarrow> s
      | Inr (predictionId, s') \<Rightarrow> s')"
| "execute (SubmitChoice msg_sender predictionId encryptedChoice inputProof) s =
     (case submitChoice msg_sender predictionId encryptedChoice inputProof s of
        Inl e \<Rightarrow> s
      | Inr s' \<Rightarrow> s')"
| "execute (ClosePrediction predictionId) s =
     (case closePrediction predictionId s of Inl e \<Rightarrow> s | Inr s' \<Rightarrow> s')"
| "execute (GetPrediction predictionId) s = s"
| "execute (GetEncryptedCounts predictionId) s = s"
| "execute (HasAddressVoted predictionId user) s = s"
| "execute GetPredictionCount s = s"

text \<open>The failure a call reports, if it fails.\<close>

fun failure :: "call \<Rightarrow> contract \<Rightarrow> error option" where
  "failure (CreatePrediction msg_sender block_timestamp nm opts) s =
     (case createPrediction msg_sender block_timestamp nm opts s of
        Inl e \<Rightarrow> Some e
      | Inr _ \<Rightarrow> None)"
| "failure (SubmitChoice msg_sender predictionId encryptedChoice inputProof) s =
     (case submitChoice msg_sender predictionId encryptedChoice inputProof s of
        Inl e \<Rightarrow> Some e
      | Inr _ \<Rightarrow> None)"
| "failure (ClosePrediction predictionId) s =
     (case closePrediction predictionId s of Inl e \<Rightarrow> Some e | Inr _ \<Rightarrow> None)"
| "failure (GetPrediction predictionId) s =
     (case getPrediction predictionId s of Inl e \<Rightarrow> Some e | Inr _ \<Rightarrow> None)"
| "failure (GetEncryptedCounts predictionId) s =
     (case getEncryptedCounts predictionId s of Inl e \<Rightarrow> Some e | Inr _ \<Rightarrow> None)"
| "failure (HasAddressVoted predictionId user) s =
     (case hasAddressVoted predictionId user s of Inl e \<Rightarrow> Some e | Inr _ \<Rightarrow> None)"
| "failure GetPredictionCount s =
     (case getPredictionCount s of Inl e \<Rightarrow> Some e | Inr _ \<Rightarrow> None)"

text \<open>The states of the contract: the one it is deployed in, and the ones transactions
  lead to from there.\<close>

inductive reachable :: "contract \<Rightarrow> bool" where
  reachable_deployed: "reachable (deployed this v)"
| reachable_execute: "reachable s \<Longrightarrow> reachable (execute c s)"

fun run :: "call list \<Rightarrow> contract \<Rightarrow> contract" where
  "run [] s = s"
| "run (c # cs) s = run cs (execute c s)"

subsection \<open>What is observed, and what is hidden\<close>

text \<open>The cleartexts behind the counters of a prediction. The contract never sees them;
  the decryption service reveals them once the counters are publicly decryptable.\<close>

definition decryptedCounts :: "contract \<Rightarrow> nat \<Rightarrow> uint32 list" where
  "decryptedCounts s predictionId =
     map (clear32 (fhe s)) (encryptedCounts (predictions s ! predictionId))"

definition revealedCounts :: "contract \<Rightarrow> nat \<Rightarrow> uint32 option list" where
  "revealedCounts s predictionId =
     map (publicDecrypt (fhe s)) (encryptedCounts (predictions s ! predictionId))"

text \<open>What the chain shows of a state: the storage, the events, how many handles were
  handed out, the rights, the public flags and the shape of the collaborator calls. The
  cleartexts are not part of it.\<close>

definition observed ::
  "contract \<Rightarrow> Prediction list \<times> (nat \<Rightarrow> address \<Rightarrow> bool) \<times> event list \<times> handle \<times>
     (handle \<times> address) set \<times> handle set \<times> op_shape list" where
  "observed s =
     (predictions s, hasVoted s, events s, nextHandle (fhe s), allowed (fhe s),
      publiclyDecryptable (fhe s), map shape (oplog (fhe s)))"

subsection \<open>Counting the votes of a history\<close>

text \<open>A call is an accepted vote on a prediction when it is a \<^verbatim>\<open>submitChoice\<close> on it that
  does not fail; it is an in-range vote when, moreover, its input attests to an index below
  the number of options.\<close>

fun acceptedVote :: "nat \<Rightarrow> call \<Rightarrow> contract \<Rightarrow> bool" where
  "acceptedVote p (SubmitChoice msg_sender predictionId encryptedChoice inputProof) s =
     (predictionId = p \<and>
      failure (SubmitChoice msg_sender predictionId encryptedChoice inputProof) s = None)"
| "acceptedVote p c s = False"

fun inRangeVote :: "nat \<Rightarrow> call \<Rightarrow> contract \<Rightarrow> bool" where
  "inRangeVote p (SubmitChoice msg_sender predictionId encryptedChoice inputProof) s =
     (predictionId = p \<and>
      failure (SubmitChoice msg_sender predictionId encryptedChoice inputProof) s = None \<and>
      (case verifier (fhe s) encryptedChoice inputProof of
         None \<Rightarrow> False
       | Some c \<Rightarrow> unat c < length (options (predictions s ! p))))"
| "inRangeVote p c s = False"

text \<open>How many calls of a history, run from a state, satisfy a condition in the state
  they are made in.\<close>

fun countCalls :: "(call \<Rightarrow> contract \<Rightarrow> bool) \<Rightarrow> call list \<Rightarrow> contract \<Rightarrow> nat" where
  "countCalls P [] s = 0"
| "countCalls P (c # cs) s = (if P c s then 1 else 0) + countCalls P cs (execute c s)"

text \<open>The recorded voters of a prediction.\<close>

definition voters :: "contract \<Rightarrow> nat \<Rightarrow> address set" where
  "voters s predictionId = {user. hasVoted s predictionId user}"

text \<open>The sum of the decrypted counters of a prediction, as a 32-bit value and as a
  number; zero for a prediction that is yet to be created.\<close>

definition tallySum32 :: "contract \<Rightarrow> nat \<Rightarrow> uint32" where
  "tallySum32 s predictionId =
     (if predictionId < length (predictions s) then sum_list (decryptedCounts s predictionId) else 0)"

definition tallySum :: "contract \<Rightarrow> nat \<Rightarrow> nat" where
  "tallySum s predictionId =
     (if predictionId < length (predictions s)
      then sum_list (map unat (decryptedCounts s predictionId)) else 0)"

subsection \<open>Invariants\<close>

definition wellFormed :: "Prediction \<Rightarrow> bool" where
  "wellFormed p \<longleftrightarrow>
     length (options p) = length (encryptedCounts p) \<and>
     2 \<le> length (options p) \<and> length (options p) \<le> 4 \<and>
     [] \<notin> set (options p)"

definition invariant :: "contract \<Rightarrow> bool" where
  "invariant s \<longleftrightarrow> list_all wellFormed (predictions s)"

text \<open>Every counter handle in storage was handed out by the collaborator, and no vote
  is recorded for a prediction that does not exist.\<close>

definition allocated :: "contract \<Rightarrow> bool" where
  "allocated s \<longleftrightarrow>
     list_all (\<lambda>p. list_all (\<lambda>h. h < nextHandle (fhe s)) (encryptedCounts p)) (predictions s)"

definition ledgerBounded :: "contract \<Rightarrow> bool" where
  "ledgerBounded s \<longleftrightarrow> (\<forall>predictionId user. hasVoted s predictionId user \<longrightarrow> predictionId < length (predictions s))"

subsection \<open>The effect of a vote, spelled out\<close>

text \<open>The collaborator after the three calls that precede the loop of \<^verbatim>\<open>submitChoice\<close>
  (decoding the input, encrypting one, encrypting zero), for an input that attests to the
  cleartext \<open>c\<close>.\<close>

definition preamble :: "externalEuint32 \<Rightarrow> uint32 \<Rightarrow> FHE \<Rightarrow> FHE" where
  "preamble e c f =
     f\<lparr>nextHandle := nextHandle f + 3,
       clear32 := (clear32 f)(nextHandle f := c, nextHandle f + 1 := 1, nextHandle f + 2 := 0),
       oplog := oplog f @ [OpFromExternal e (nextHandle f),
                           OpTrivialEncrypt 1 (nextHandle f + 1),
                           OpTrivialEncrypt 0 (nextHandle f + 2)]\<rparr>"

text \<open>The storage \<^verbatim>\<open>submitChoice\<close> leaves once its requirements are met and the input
  attests to \<open>c\<close>.\<close>

definition voteApplied :: "address \<Rightarrow> nat \<Rightarrow> externalEuint32 \<Rightarrow> uint32 \<Rightarrow> contract \<Rightarrow> contract" where
  "voteApplied msg_sender predictionId e c s =
     (let h = nextHandle (fhe s);
          t = tally (thisAddress s) h (h + 1) (h + 2) 0
                (encryptedCounts (predictions s ! predictionId)) (preamble e c (fhe s))
      in s\<lparr>predictions := (predictions s)
              [predictionId := (predictions s ! predictionId)\<lparr>encryptedCounts := fst t\<rparr>],
            hasVoted := (hasVoted s)(predictionId := (hasVoted s predictionId)(msg_sender := True)),
            fhe := snd t,
            events := events s @ [VoteSubmitted predictionId msg_sender h]\<rparr>)"

subsection \<open>An example market\<close>

text \<open>An input verifier for the examples: the external input \<open>e\<close> attests to the
  cleartext \<open>e\<close> under any proof but the empty one.\<close>

definition exampleVerifier :: "externalEuint32 \<Rightarrow> bytes \<Rightarrow> uint32 option" where
  "exampleVerifier e inputProof = (if inputProof = [] then None else Some (of_nat e))"

text \<open>The scenario of the specification: address \<open>1\<close> creates the prediction
  \<open>BTC price\<close> with the options \<open>Up\<close> and \<open>Down\<close> on a contract deployed at address \<open>7\<close>.\<close>

definition market :: contract where
  "market = execute (CreatePrediction 1 1700000000 ''BTC price'' [''Up'', ''Down''])
              (deployed 7 exampleVerifier)"

text \<open>A second prediction beside the first, with three options.\<close>

definition twoMarkets :: contract where
  "twoMarkets = execute (CreatePrediction 3 1700000600 ''ETH price'' [''Up'', ''Flat'', ''Down''])
                  market"

section \<open>Properties\<close>

subsection \<open>The loops in closed form\<close>

lemma requireOptions_from:
  "requireOptions i opts = (if [] \<in> set (drop i opts) then Inl Empty_option else Inr ())"
proof (induction "length opts - i" arbitrary: i)
  case 0
  then show ?case by (subst requireOptions.simps) simp
next
  case (Suc d)
  then have i: "i < length opts" and d: "d = length opts - (i + 1)" by simp_all
  have dr: "drop i opts = opts ! i # drop (i + 1) opts"
    using i by (simp add: Cons_nth_drop_Suc)
  show ?case
    by (subst requireOptions.simps) (use i dr Suc.hyps(1) [OF d] in auto)
qed

lemma requireOptions_iff: "requireOptions 0 opts = (if [] \<in> set opts then Inl Empty_option else Inr ())"
  by (simp add: requireOptions_from)

lemma copyArray_from:
  "length dst = length src \<Longrightarrow> copyArray i src dst = Inr (take i dst @ drop i src)"
proof (induction "length src - i" arbitrary: i dst)
  case 0
  then show ?case by (subst copyArray.simps) simp
next
  case (Suc d)
  then have i: "i < length src" and d: "d = length src - (i + 1)" by simp_all
  have "copyArray i src dst = copyArray (i + 1) src (dst[i := src ! i])"
    using i Suc.prems by (subst copyArray.simps) simp
  also have "\<dots> = Inr (take (i + 1) (dst[i := src ! i]) @ drop (i + 1) src)"
    using Suc.hyps(1) [OF d] Suc.prems by simp
  also have "take (i + 1) (dst[i := src ! i]) @ drop (i + 1) src = take i dst @ drop i src"
    using i Suc.prems by (simp add: take_Suc_conv_app_nth Cons_nth_drop_Suc)
  finally show ?case .
qed

lemma copyArray_replicate: "copyArray 0 src (replicate (length src) d) = Inr src"
  by (simp add: copyArray_from)

lemma publish_from:
  "publish i counts f =
     (counts, f\<lparr>publiclyDecryptable := publiclyDecryptable f \<union> set (drop i counts),
                oplog := oplog f @ map OpMakePubliclyDecryptable (drop i counts)\<rparr>)"
proof (induction "length counts - i" arbitrary: i f)
  case 0
  then show ?case by (subst publish.simps) simp
next
  case (Suc d)
  then have i: "i < length counts" and d: "d = length counts - (i + 1)" by simp_all
  have dr: "drop i counts = counts ! i # drop (i + 1) counts"
    using i by (simp add: Cons_nth_drop_Suc)
  show ?case
    apply (subst publish.simps)
    using i apply (simp add: FHE_makePubliclyDecryptable_def)
    using Suc.hyps(1) [OF d] dr apply simp
    done
qed


lemma initOptions_steps:
  assumes "i + m = length opts"
    and "length (options p) = length opts" "length (encryptedCounts p) = length opts"
  shows "initOptions this i opts p f =
     Inr (p\<lparr>options := take i (options p) @ drop i opts,
             encryptedCounts := take i (encryptedCounts p) @ [nextHandle f ..< nextHandle f + m]\<rparr>,
          f\<lparr>nextHandle := nextHandle f + m,
            clear32 := (\<lambda>h. if h \<in> set [nextHandle f ..< nextHandle f + m] then 0 else clear32 f h),
            allowed := allowed f \<union> (\<lambda>h. (h, this)) ` set [nextHandle f ..< nextHandle f + m],
            oplog := oplog f @ concat (map (\<lambda>h. [OpTrivialEncrypt 0 h, OpAllow h this])
                                          [nextHandle f ..< nextHandle f + m])\<rparr>)"
  using assms
proof (induction m arbitrary: i p f)
  case 0
  then show ?case by (subst initOptions.simps) simp
next
  case (Suc m)
  then have i: "i < length opts" and m: "Suc i + m = length opts" by simp_all
  let ?p = "p\<lparr>options := (options p)[i := opts ! i],
               encryptedCounts := (encryptedCounts p)[i := nextHandle f]\<rparr>"
  let ?f = "f\<lparr>nextHandle := Suc (nextHandle f),
               clear32 := (clear32 f)(nextHandle f := 0),
               allowed := insert (nextHandle f, this) (allowed f),
               oplog := oplog f @ [OpTrivialEncrypt 0 (nextHandle f), OpAllow (nextHandle f) this]\<rparr>"
  have step: "initOptions this i opts p f = initOptions this (Suc i) opts ?p ?f"
    using i Suc.prems
    by (subst initOptions.simps)
       (simp add: FHE_asEuint32_def FHE_allowThis_def FHE_allow_def Let_def)
  have o: "take (Suc i) ((options p)[i := opts ! i]) @ drop (Suc i) opts = take i (options p) @ drop i opts"
    using i Suc.prems by (simp add: take_Suc_conv_app_nth Cons_nth_drop_Suc)
  have c: "take (Suc i) ((encryptedCounts p)[i := nextHandle f]) = take i (encryptedCounts p) @ [nextHandle f]"
    using i Suc.prems by (simp add: take_Suc_conv_app_nth)
  show ?case
    unfolding step
    apply (subst Suc.IH [OF m])
    using Suc.prems apply simp
    using Suc.prems apply simp
    apply (auto simp del: upt_Suc simp add: upt_conv_Cons o c fun_eq_iff)
    done
qed

lemma tally_stop: "\<not> i < length counts \<Longrightarrow> tally this choice one zero i counts f = (counts, f)"
  by (subst tally.simps) simp

lemma tally_step:
  "i < length counts \<Longrightarrow>
   tally this choice one zero i counts f =
   tally this choice one zero (Suc i) (counts[i := nextHandle f + 2])
     (iteration this choice one zero i (counts ! i) f)"
  by (subst tally.simps)
     (simp add: iteration_def FHE_eq_def FHE_select_def FHE_add_def FHE_allowThis_def FHE_allow_def Let_def)

lemma iteration_fields:
  "nextHandle (iteration this choice one zero i c f) = nextHandle f + 3"
  "verifier (iteration this choice one zero i c f) = verifier f"
  "publiclyDecryptable (iteration this choice one zero i c f) = publiclyDecryptable f"
  "allowed (iteration this choice one zero i c f) = insert (nextHandle f + 2, this) (allowed f)"
  "oplog (iteration this choice one zero i c f) =
     oplog f @ [OpEq choice (of_nat i) (nextHandle f),
                OpSelect (nextHandle f) one zero (nextHandle f + 1),
                OpAdd c (nextHandle f + 1) (nextHandle f + 2),
                OpAllow (nextHandle f + 2) this]"
  by (simp_all add: iteration_def FHE_eq_def FHE_select_def FHE_add_def FHE_allowThis_def FHE_allow_def Let_def)

lemma iteration_old:
  "h < nextHandle f \<Longrightarrow> clear32 (iteration this choice one zero i c f) h = clear32 f h"
  by (simp add: iteration_def FHE_eq_def FHE_select_def FHE_add_def FHE_allowThis_def FHE_allow_def Let_def)

lemma iteration_new:
  "c < nextHandle f \<Longrightarrow>
   clear32 (iteration this choice one zero i c f) (nextHandle f + 2) =
   clear32 f c + (if clear32 f choice = of_nat i then clear32 f one else clear32 f zero)"
  by (simp add: iteration_def FHE_eq_def FHE_select_def FHE_add_def FHE_allowThis_def FHE_allow_def Let_def)

lemma tally_length:
  "i + m = length counts \<Longrightarrow> length (fst (tally this choice one zero i counts f)) = length counts"
proof (induction m arbitrary: i counts f)
  case 0
  then show ?case by (simp add: tally_stop)
next
  case (Suc m)
  then show ?case by (simp add: tally_step)
qed

lemma tally_nextHandle:
  "i + m = length counts \<Longrightarrow>
   nextHandle (snd (tally this choice one zero i counts f)) = nextHandle f + 3 * m"
proof (induction m arbitrary: i counts f)
  case 0
  then show ?case by (simp add: tally_stop)
next
  case (Suc m)
  then show ?case by (simp add: tally_step iteration_fields)
qed

lemma tally_same:
  "i + m = length counts \<Longrightarrow>
   verifier (snd (tally this choice one zero i counts f)) = verifier f \<and>
   publiclyDecryptable (snd (tally this choice one zero i counts f)) = publiclyDecryptable f"
proof (induction m arbitrary: i counts f)
  case 0
  then show ?case by (simp add: tally_stop)
next
  case (Suc m)
  then show ?case by (simp add: tally_step iteration_fields)
qed

lemma tally_nth:
  "i + m = length counts \<Longrightarrow> j < length counts \<Longrightarrow>
   fst (tally this choice one zero i counts f) ! j =
     (if j < i then counts ! j else nextHandle f + 3 * (j - i) + 2)"
proof (induction m arbitrary: i counts f)
  case 0
  then show ?case by (simp add: tally_stop)
next
  case (Suc m)
  then have i: "i < length counts" and m: "Suc i + m = length (counts[i := nextHandle f + 2])"
    by simp_all
  show ?case
    unfolding tally_step [OF i]
    apply (subst Suc.IH [OF m])
    using Suc.prems apply simp
    using Suc.prems i apply (auto simp: iteration_fields nth_list_update less_Suc_eq)
    done
qed

lemma tally_old:
  "i + m = length counts \<Longrightarrow> h < nextHandle f \<Longrightarrow>
   clear32 (snd (tally this choice one zero i counts f)) h = clear32 f h"
proof (induction m arbitrary: i counts f)
  case 0
  then show ?case by (simp add: tally_stop)
next
  case (Suc m)
  then have i: "i < length counts" and m: "Suc i + m = length (counts[i := nextHandle f + 2])"
    by simp_all
  show ?case
    unfolding tally_step [OF i]
    apply (subst Suc.IH [OF m])
    using Suc.prems apply (simp add: iteration_fields)
    using Suc.prems apply (simp add: iteration_old)
    done
qed

lemma tally_allowed:
  "i + m = length counts \<Longrightarrow>
   allowed (snd (tally this choice one zero i counts f)) =
     allowed f \<union> (\<lambda>k. (nextHandle f + 3 * k + 2, this)) ` {..<m}"
proof (induction m arbitrary: i counts f)
  case 0
  then show ?case by (simp add: tally_stop)
next
  case (Suc m)
  then have i: "i < length counts" and m: "Suc i + m = length (counts[i := nextHandle f + 2])"
    by simp_all
  show ?case
    unfolding tally_step [OF i] Suc.IH [OF m] lessThan_Suc_eq_insert_0
    by (simp add: iteration_fields image_image)
qed

lemma tally_oplog:
  "i + m = length counts \<Longrightarrow>
   oplog (snd (tally this choice one zero i counts f)) =
     oplog f @ concat (map (\<lambda>k. [OpEq choice (of_nat (i + k)) (nextHandle f + 3 * k),
                                   OpSelect (nextHandle f + 3 * k) one zero (nextHandle f + 3 * k + 1),
                                   OpAdd (counts ! (i + k)) (nextHandle f + 3 * k + 1) (nextHandle f + 3 * k + 2),
                                   OpAllow (nextHandle f + 3 * k + 2) this]) [0..<m])"
proof (induction m arbitrary: i counts f)
  case 0
  then show ?case by (simp add: tally_stop)
next
  case (Suc m)
  then have i: "i < length counts" and m: "Suc i + m = length (counts[i := nextHandle f + 2])"
    by simp_all
  have u: "[0..<Suc m] = 0 # map Suc [0..<m]"
    by (simp add: upt_conv_Cons map_Suc_upt del: upt_Suc)
  show ?case
    unfolding tally_step [OF i] Suc.IH [OF m] u
    by (simp add: iteration_fields comp_def add_ac del: upt_Suc)
qed

lemma tally_value:
  assumes "i + m = length counts"
    and "\<forall>j. i \<le> j \<and> j < length counts \<longrightarrow> counts ! j < nextHandle f"
    and "choice < nextHandle f" "one < nextHandle f" "zero < nextHandle f"
    and "i \<le> j" "j < length counts"
  shows "clear32 (snd (tally this choice one zero i counts f)) (fst (tally this choice one zero i counts f) ! j) =
         clear32 f (counts ! j) + (if clear32 f choice = of_nat j then clear32 f one else clear32 f zero)"
  using assms
proof (induction m arbitrary: i counts f)
  case 0
  then show ?case by simp
next
  case (Suc m)
  then have i: "i < length counts" and m: "Suc i + m = length (counts[i := nextHandle f + 2])"
    by simp_all
  let ?f = "iteration this choice one zero i (counts ! i) f"
  let ?c = "counts[i := nextHandle f + 2]"
  have ci: "counts ! i < nextHandle f" using Suc.prems(2) i by simp
  show ?case
  proof (cases "j = i")
    case True
    have "fst (tally this choice one zero (Suc i) ?c ?f) ! i = nextHandle f + 2"
      using tally_nth [OF m, of i this choice one zero ?f] i by simp
    moreover have "clear32 (snd (tally this choice one zero (Suc i) ?c ?f)) (nextHandle f + 2) =
                   clear32 ?f (nextHandle f + 2)"
      by (rule tally_old [OF m]) (simp add: iteration_fields)
    ultimately show ?thesis
      unfolding tally_step [OF i] True
      using iteration_new [OF ci, of this choice one zero i] by simp
  next
    case False
    with Suc.prems have j: "Suc i \<le> j" "j < length ?c" by simp_all
    have "clear32 (snd (tally this choice one zero (Suc i) ?c ?f)) (fst (tally this choice one zero (Suc i) ?c ?f) ! j) =
          clear32 ?f (?c ! j) + (if clear32 ?f choice = of_nat j then clear32 ?f one else clear32 ?f zero)"
      apply (rule Suc.IH [OF m _ _ _ _ j])
      using Suc.prems(2) apply (simp add: iteration_fields nth_list_update)
         apply (metis Suc_leD trans_less_add1)
      using Suc.prems apply (simp_all add: iteration_fields)
      done
    then show ?thesis
      unfolding tally_step [OF i]
      using Suc.prems False j by (simp add: iteration_old)
  qed
qed

subsection \<open>The external functions in closed form\<close>

lemma createPrediction_eq:
  "createPrediction msg_sender block_timestamp nm opts s =
     (if nm = [] then Inl Name_required
      else if \<not> (2 \<le> length opts \<and> length opts \<le> 4) then Inl Options_must_be_2_4
      else if [] \<in> set opts then Inl Empty_option
      else Inr (length (predictions s),
        s\<lparr>predictions := predictions s @
              [\<lparr>name = nm, options = opts,
                encryptedCounts = [nextHandle (fhe s) ..< nextHandle (fhe s) + length opts],
                isOpen = True, createdAt = block_timestamp\<rparr>],
          fhe := (fhe s)
            \<lparr>nextHandle := nextHandle (fhe s) + length opts,
             clear32 := (\<lambda>h. if h \<in> set [nextHandle (fhe s) ..< nextHandle (fhe s) + length opts] then 0
                              else clear32 (fhe s) h),
             allowed := allowed (fhe s) \<union>
                (\<lambda>h. (h, thisAddress s)) ` set [nextHandle (fhe s) ..< nextHandle (fhe s) + length opts],
             oplog := oplog (fhe s) @
                concat (map (\<lambda>h. [OpTrivialEncrypt 0 h, OpAllow h (thisAddress s)])
                            [nextHandle (fhe s) ..< nextHandle (fhe s) + length opts])\<rparr>,
          events := events s @ [PredictionCreated (length (predictions s)) msg_sender nm opts]\<rparr>))"
  by (simp add: createPrediction_def requireOptions_iff initOptions_steps [where m = "length opts"] Let_def)

lemma submitChoice_eq:
  "submitChoice msg_sender predictionId e inputProof s =
     (if \<not> predictionId < length (predictions s) then Inl Invalid_prediction
      else if \<not> isOpen (predictions s ! predictionId) then Inl Prediction_closed
      else if hasVoted s predictionId msg_sender then Inl Already_voted
      else case verifier (fhe s) e inputProof of
        None \<Rightarrow> Inl Invalid_proof
      | Some c \<Rightarrow>
Inr (voteApplied msg_sender predictionId e c s))"
  by (simp add: submitChoice_def FHE_fromExternal_def FHE_asEuint32_def preamble_def voteApplied_def Let_def
                case_prod_beta numeral_3_eq_3
           split: option.splits)

lemma closePrediction_eq:
  "closePrediction predictionId s =
     (if \<not> predictionId < length (predictions s) then Inl Invalid_prediction
      else if \<not> isOpen (predictions s ! predictionId) then Inl Already_closed
      else Inr (s\<lparr>predictions := (predictions s)
                     [predictionId := (predictions s ! predictionId)\<lparr>isOpen := False\<rparr>],
                  fhe := (fhe s)
                    \<lparr>publiclyDecryptable := publiclyDecryptable (fhe s) \<union>
                        set (encryptedCounts (predictions s ! predictionId)),
                     oplog := oplog (fhe s) @
                        map OpMakePubliclyDecryptable (encryptedCounts (predictions s ! predictionId))\<rparr>,
                  events := events s @ [PredictionClosed predictionId]\<rparr>))"
  by (simp add: closePrediction_def publish_from Let_def)

lemma getPrediction_eq:
  "getPrediction predictionId s =
     (if \<not> predictionId < length (predictions s) then Inl Invalid_prediction
      else Inr (name (predictions s ! predictionId), options (predictions s ! predictionId),
                encryptedCounts (predictions s ! predictionId), isOpen (predictions s ! predictionId),
                createdAt (predictions s ! predictionId)))"
  by (simp add: getPrediction_def copyArray_replicate Let_def)

lemma getEncryptedCounts_eq:
  "getEncryptedCounts predictionId s =
     (if \<not> predictionId < length (predictions s) then Inl Invalid_prediction
      else Inr (encryptedCounts (predictions s ! predictionId)))"
  by (simp add: getEncryptedCounts_def copyArray_replicate Let_def)

subsection \<open>What a vote changes\<close>

lemma preamble_fields:
  "nextHandle (preamble e c f) = nextHandle f + 3"
  "verifier (preamble e c f) = verifier f"
  "publiclyDecryptable (preamble e c f) = publiclyDecryptable f"
  "allowed (preamble e c f) = allowed f"
  "clear32 (preamble e c f) (nextHandle f) = c"
  "clear32 (preamble e c f) (nextHandle f + 1) = 1"
  "clear32 (preamble e c f) (nextHandle f + 2) = 0"
  by (simp_all add: preamble_def)

lemma preamble_old: "h < nextHandle f \<Longrightarrow> clear32 (preamble e c f) h = clear32 f h"
  by (simp add: preamble_def)

lemma voteApplied_simple:
  "length (predictions (voteApplied u n e c s)) = length (predictions s)"
  "hasVoted (voteApplied u n e c s) = (hasVoted s)(n := (hasVoted s n)(u := True))"
  "events (voteApplied u n e c s) = events s @ [VoteSubmitted n u (nextHandle (fhe s))]"
  "thisAddress (voteApplied u n e c s) = thisAddress s"
  "verifier (fhe (voteApplied u n e c s)) = verifier (fhe s)"
  "publiclyDecryptable (fhe (voteApplied u n e c s)) = publiclyDecryptable (fhe s)"
  "nextHandle (fhe (voteApplied u n e c s)) =
     nextHandle (fhe s) + 3 + 3 * length (encryptedCounts (predictions s ! n))"
  by (simp_all add: voteApplied_def Let_def preamble_fields
        tally_same [where m = "length (encryptedCounts (predictions s ! n))"]
        tally_nextHandle [where m = "length (encryptedCounts (predictions s ! n))"])

lemma voteApplied_other:
  "q \<noteq> n \<Longrightarrow> predictions (voteApplied u n e c s) ! q = predictions s ! q"
  by (simp add: voteApplied_def Let_def)

lemma voteApplied_counts:
  assumes "n < length (predictions s)"
  shows "predictions (voteApplied u n e c s) ! n =
           (predictions s ! n)\<lparr>encryptedCounts :=
              map (\<lambda>j. nextHandle (fhe s) + 3 * j + 5) [0..<length (encryptedCounts (predictions s ! n))]\<rparr>"
proof -
  let ?cs = "encryptedCounts (predictions s ! n)"
  let ?h = "nextHandle (fhe s)"
  let ?t = "tally (thisAddress s) ?h (?h + 1) (?h + 2) 0 ?cs (preamble e c (fhe s))"
  have "fst ?t = map (\<lambda>j. ?h + 3 * j + 5) [0..<length ?cs]"
    by (rule nth_equalityI)
       (simp_all add: tally_length [where m = "length ?cs"] tally_nth [where m = "length ?cs"] preamble_fields)
  then show ?thesis using assms by (simp add: voteApplied_def Let_def)
qed

lemma voteApplied_old:
  "h < nextHandle (fhe s) \<Longrightarrow> clear32 (fhe (voteApplied u n e c s)) h = clear32 (fhe s) h"
  by (simp add: voteApplied_def Let_def preamble_fields preamble_old
        tally_old [where m = "length (encryptedCounts (predictions s ! n))"])

lemma voteApplied_value:
  assumes "list_all (\<lambda>h. h < nextHandle (fhe s)) (encryptedCounts (predictions s ! n))"
    and "j < length (encryptedCounts (predictions s ! n))"
  shows "clear32 (fhe (voteApplied u n e c s)) (nextHandle (fhe s) + 3 * j + 5) =
         clear32 (fhe s) (encryptedCounts (predictions s ! n) ! j) + (if c = of_nat j then 1 else 0)"
proof -
  let ?cs = "encryptedCounts (predictions s ! n)"
  let ?h = "nextHandle (fhe s)"
  let ?f = "preamble e c (fhe s)"
  let ?t = "tally (thisAddress s) ?h (?h + 1) (?h + 2) 0 ?cs ?f"
  have old: "?cs ! k < ?h" if "k < length ?cs" for k
    using assms(1) that by (simp add: list_all_length)
  have "clear32 (snd ?t) (fst ?t ! j) =
        clear32 ?f (?cs ! j) + (if clear32 ?f ?h = of_nat j then clear32 ?f (?h + 1) else clear32 ?f (?h + 2))"
    by (rule tally_value [where m = "length ?cs"])
       (use assms(2) old in \<open>auto simp: preamble_fields intro: trans_less_add1\<close>)
  moreover have "fst ?t ! j = ?h + 3 * j + 5"
    using assms(2) by (simp add: tally_nth [where m = "length ?cs"] preamble_fields)
  ultimately show ?thesis
    using old [OF assms(2)] by (simp add: voteApplied_def Let_def preamble_def)
qed

lemma voteApplied_allowed:
  "allowed (fhe (voteApplied u n e c s)) =
     allowed (fhe s) \<union>
     (\<lambda>k. (nextHandle (fhe s) + 3 * k + 5, thisAddress s)) ` {..<length (encryptedCounts (predictions s ! n))}"
  by (simp add: voteApplied_def Let_def preamble_fields add_ac
        tally_allowed [where m = "length (encryptedCounts (predictions s ! n))"])

lemma voteApplied_oplog:
  "oplog (fhe (voteApplied u n e c s)) =
     oplog (fhe s) @
     [OpFromExternal e (nextHandle (fhe s)),
      OpTrivialEncrypt 1 (nextHandle (fhe s) + 1),
      OpTrivialEncrypt 0 (nextHandle (fhe s) + 2)] @
     concat (map (\<lambda>k. [OpEq (nextHandle (fhe s)) (of_nat k) (nextHandle (fhe s) + 3 * k + 3),
                         OpSelect (nextHandle (fhe s) + 3 * k + 3) (nextHandle (fhe s) + 1)
                           (nextHandle (fhe s) + 2) (nextHandle (fhe s) + 3 * k + 4),
                         OpAdd (encryptedCounts (predictions s ! n) ! k)
                           (nextHandle (fhe s) + 3 * k + 4) (nextHandle (fhe s) + 3 * k + 5),
                         OpAllow (nextHandle (fhe s) + 3 * k + 5) (thisAddress s)])
                 [0..<length (encryptedCounts (predictions s ! n))])"
  by (simp add: voteApplied_def Let_def add_ac preamble_def
        tally_oplog [where m = "length (encryptedCounts (predictions s ! n))"])


subsection \<open>The invariants hold in every reachable state\<close>

lemma list_all_update:
  "list_all P xs \<Longrightarrow> P x \<Longrightarrow> list_all P (xs[i := x])"
  using set_update_subset_insert [of xs i x] by (auto simp: list_all_iff)

lemma invariant_deployed: "invariant (deployed this v)"
  by (simp add: invariant_def deployed_def)

lemma invariant_execute: "invariant s \<Longrightarrow> invariant (execute c s)"
proof (cases c)
  case (CreatePrediction u ts nm opts)
  assume "invariant s"
  then show ?thesis
    by (simp add: CreatePrediction createPrediction_eq invariant_def wellFormed_def)
next
  case (SubmitChoice u n e pr)
  assume inv: "invariant s"
  have "list_all wellFormed (predictions (voteApplied u n e c' s))"
    if "n < length (predictions s)" for c'
  proof -
    have "wellFormed (predictions s ! n)"
      using inv that by (simp add: invariant_def list_all_length)
    then have w: "wellFormed (predictions (voteApplied u n e c' s) ! n)"
      by (simp add: voteApplied_counts [OF that] wellFormed_def)
    have eq: "predictions (voteApplied u n e c' s) =
        (predictions s)[n := predictions (voteApplied u n e c' s) ! n]"
      using that by (simp add: voteApplied_def Let_def)
    have a: "list_all wellFormed (predictions s)"
      using inv by (simp add: invariant_def)
    show ?thesis
      by (subst eq) (rule list_all_update [OF a w])
  qed
  with inv show ?thesis
    by (simp add: SubmitChoice submitChoice_eq invariant_def split: option.splits)
next
  case (ClosePrediction n)
  assume inv: "invariant s"
  have "list_all wellFormed ((predictions s)[n := (predictions s ! n)\<lparr>isOpen := False\<rparr>])"
    if "n < length (predictions s)"
  proof (rule list_all_update)
    show "list_all wellFormed (predictions s)" using inv by (simp add: invariant_def)
    have "wellFormed (predictions s ! n)"
      using inv that by (simp add: invariant_def list_all_length)
    then show "wellFormed ((predictions s ! n)\<lparr>isOpen := False\<rparr>)"
      by (simp add: wellFormed_def)
  qed
  with inv show ?thesis
    by (simp add: ClosePrediction closePrediction_eq invariant_def)
qed simp_all

lemma allocated_deployed: "allocated (deployed this v)"
  by (simp add: allocated_def deployed_def)

lemma allocated_mono:
  "list_all (\<lambda>p. list_all (\<lambda>h. h < a) (encryptedCounts p)) ps \<Longrightarrow> a \<le> b \<Longrightarrow>
   list_all (\<lambda>p. list_all (\<lambda>h. h < (b::nat)) (encryptedCounts p)) ps"
  by (fastforce simp: list_all_iff)

lemma allocated_execute: "allocated s \<Longrightarrow> allocated (execute c s)"
proof (cases c)
  case (CreatePrediction u ts nm opts)
  assume "allocated s"
  then show ?thesis
    using allocated_mono [of "nextHandle (fhe s)" "predictions s" "nextHandle (fhe s) + length opts"]
    by (simp add: CreatePrediction createPrediction_eq allocated_def list_all_iff)
next
  case (SubmitChoice u n e pr)
  assume al: "allocated s"
  have "allocated (voteApplied u n e c' s)" if n: "n < length (predictions s)" for c'
  proof -
    let ?b = "nextHandle (fhe s) + 3 + 3 * length (encryptedCounts (predictions s ! n))"
    have old: "list_all (\<lambda>p. list_all (\<lambda>h. h < ?b) (encryptedCounts p)) (predictions s)"
      using al allocated_mono [of "nextHandle (fhe s)" "predictions s" ?b] by (simp add: allocated_def)
    have new: "list_all (\<lambda>h. h < ?b) (encryptedCounts (predictions (voteApplied u n e c' s) ! n))"
      by (simp add: voteApplied_counts [OF n] list_all_iff)
    have eq: "predictions (voteApplied u n e c' s) =
        (predictions s)[n := predictions (voteApplied u n e c' s) ! n]"
      using n by (simp add: voteApplied_def Let_def)
    have "list_all (\<lambda>p. list_all (\<lambda>h. h < ?b) (encryptedCounts p)) (predictions (voteApplied u n e c' s))"
      by (subst eq) (rule list_all_update [OF old new])
    then show ?thesis
      by (simp add: allocated_def voteApplied_simple)
  qed
  with al show ?thesis
    by (simp add: SubmitChoice submitChoice_eq split: option.splits)
next
  case (ClosePrediction n)
  assume al: "allocated s"
  have "list_all (\<lambda>p. list_all (\<lambda>h. h < nextHandle (fhe s)) (encryptedCounts p))
          ((predictions s)[n := (predictions s ! n)\<lparr>isOpen := False\<rparr>])"
    if "n < length (predictions s)"
  proof (rule list_all_update)
    show "list_all (\<lambda>p. list_all (\<lambda>h. h < nextHandle (fhe s)) (encryptedCounts p)) (predictions s)"
      using al by (simp add: allocated_def)
    then show "list_all (\<lambda>h. h < nextHandle (fhe s)) (encryptedCounts ((predictions s ! n)\<lparr>isOpen := False\<rparr>))"
      using that by (simp add: list_all_length)
  qed
  with al show ?thesis
    by (simp add: ClosePrediction closePrediction_eq allocated_def)
qed simp_all

lemma ledgerBounded_deployed: "ledgerBounded (deployed this v)"
  by (simp add: ledgerBounded_def deployed_def)

lemma ledgerBounded_execute: "ledgerBounded s \<Longrightarrow> ledgerBounded (execute c s)"
proof (cases c)
  case (CreatePrediction u ts nm opts)
  assume "ledgerBounded s"
  then show ?thesis
    by (auto simp: CreatePrediction createPrediction_eq ledgerBounded_def less_Suc_eq)
next
  case (SubmitChoice u n e pr)
  assume "ledgerBounded s"
  then show ?thesis
    by (auto simp: SubmitChoice submitChoice_eq ledgerBounded_def voteApplied_simple split: option.splits if_splits)
next
  case (ClosePrediction n)
  assume "ledgerBounded s"
  then show ?thesis
    by (simp add: ClosePrediction closePrediction_eq ledgerBounded_def)
qed simp_all

lemma reachable_invariant: "reachable s \<Longrightarrow> invariant s"
  by (induction rule: reachable.induct) (simp_all add: invariant_deployed invariant_execute)

lemma reachable_allocated: "reachable s \<Longrightarrow> allocated s"
  by (induction rule: reachable.induct) (simp_all add: allocated_deployed allocated_execute)

lemma reachable_ledgerBounded: "reachable s \<Longrightarrow> ledgerBounded s"
  by (induction rule: reachable.induct) (simp_all add: ledgerBounded_deployed ledgerBounded_execute)

subsection \<open>The counters of a stored prediction\<close>

lemma of_nat_slot_eq:
  "j < 4 \<Longrightarrow> k < 4 \<Longrightarrow> (of_nat j :: uint32) = of_nat k \<longleftrightarrow> j = k"
proof
  assume a: "j < 4" "k < 4" "(of_nat j :: uint32) = of_nat k"
  then have "unat (of_nat j :: uint32) = unat (of_nat k :: uint32)" by simp
  with a(1,2) show "j = k" by (simp add: unat_of_nat)
qed simp

lemma reachable_slots:
  assumes "reachable s" "n < length (predictions s)"
  shows "length (encryptedCounts (predictions s ! n)) = length (options (predictions s ! n))"
    and "length (options (predictions s ! n)) \<le> 4"
    and "2 \<le> length (options (predictions s ! n))"
    and "list_all (\<lambda>h. h < nextHandle (fhe s)) (encryptedCounts (predictions s ! n))"
  using reachable_invariant [OF assms(1)] reachable_allocated [OF assms(1)] assms(2)
  by (auto simp: invariant_def allocated_def list_all_length wellFormed_def)

lemma voteApplied_decrypted:
  assumes "reachable s" "n < length (predictions s)"
  shows "decryptedCounts (voteApplied u n e c s) n =
         map (\<lambda>j. decryptedCounts s n ! j + (if c = of_nat j then 1 else 0))
             [0..<length (options (predictions s ! n))]"
proof -
  note sl = reachable_slots [OF assms]
  show ?thesis
    by (simp add: decryptedCounts_def voteApplied_counts [OF assms(2)] comp_def
                  voteApplied_value [OF sl(4)] sl(1) cong: map_cong)
qed


subsection \<open>The example market, evaluated\<close>

lemma market_fields:
  "predictions market =
     [\<lparr>name = ''BTC price'', options = [''Up'', ''Down''],
       encryptedCounts = [1, 2], isOpen = True, createdAt = 1700000000\<rparr>]"
  "hasVoted market = (\<lambda>_ _. False)"
  "thisAddress market = 7"
  "nextHandle (fhe market) = 3"
  "clear32 (fhe market) = (\<lambda>_. 0)"
  "verifier (fhe market) = exampleVerifier"
  by (simp_all add: market_def createPrediction_eq deployed_def fun_eq_iff numeral_2_eq_2 numeral_3_eq_3)

lemma market_reachable: "reachable market"
  unfolding market_def by (intro reachable.intros)


lemma vote_ok:
  "0 < length inputProof \<Longrightarrow> \<not> hasVoted market 0 u \<Longrightarrow>
   submitChoice u 0 e inputProof market = Inr (execute (SubmitChoice u 0 e inputProof) market)"
  by (auto simp: submitChoice_eq market_fields exampleVerifier_def)

subsection \<open>What any call leaves alone\<close>

lemma execute_old:
  "h < nextHandle (fhe s) \<Longrightarrow> clear32 (fhe (execute c s)) h = clear32 (fhe s) h"
  by (cases c)
     (simp_all add: createPrediction_eq submitChoice_eq closePrediction_eq voteApplied_old
               split: option.splits)

lemma execute_existing:
  assumes "y < length (predictions s)"
  shows "y < length (predictions (execute c s)) \<and>
         name (predictions (execute c s) ! y) = name (predictions s ! y) \<and>
         options (predictions (execute c s) ! y) = options (predictions s ! y) \<and>
         createdAt (predictions (execute c s) ! y) = createdAt (predictions s ! y) \<and>
         (isOpen (predictions (execute c s) ! y) \<longrightarrow> isOpen (predictions s ! y))"
proof (cases c)
  case (CreatePrediction u ts nm opts)
  with assms show ?thesis
    by (simp add: createPrediction_eq nth_append)
next
  case (SubmitChoice u n e pr)
  have "predictions (voteApplied u n e c' s) ! y =
        (if y = n then (predictions s ! n)\<lparr>encryptedCounts := encryptedCounts (predictions (voteApplied u n e c' s) ! n)\<rparr>
         else predictions s ! y)" for c'
    using assms by (simp add: voteApplied_other voteApplied_counts)
  with assms show ?thesis
    by (simp add: SubmitChoice submitChoice_eq voteApplied_simple split: option.splits)
next
  case (ClosePrediction n)
  with assms show ?thesis
    by (simp add: closePrediction_eq nth_list_update)
qed (use assms in simp_all)

subsection \<open>A vote, as it is observed\<close>

lemma voteApplied_predictions:
  assumes "n < length (predictions s)"
  shows "predictions (voteApplied u n e c s) =
           (predictions s)[n := (predictions s ! n)\<lparr>encryptedCounts :=
              map (\<lambda>j. nextHandle (fhe s) + 3 * j + 5) [0..<length (encryptedCounts (predictions s ! n))]\<rparr>]"
proof -
  have "predictions (voteApplied u n e c s) =
        (predictions s)[n := predictions (voteApplied u n e c s) ! n]"
    using assms by (simp add: voteApplied_def Let_def)
  then show ?thesis by (simp only: voteApplied_counts [OF assms])
qed

lemma voteApplied_shapes:
  "map shape (oplog (fhe (voteApplied u n e c s))) =
     map shape (oplog (fhe s)) @ [FromExternal, TrivialEncrypt 1, TrivialEncrypt 0] @
     concat (map (\<lambda>i. [Eq (of_nat i), Select, Add, Allow])
                 [0..<length (encryptedCounts (predictions s ! n))])"
  by (simp add: voteApplied_oplog map_concat comp_def)

lemma submitChoice_InrD:
  assumes "submitChoice u n e inputProof s = Inr s'"
  shows "n < length (predictions s)" "isOpen (predictions s ! n)" "\<not> hasVoted s n u"
    "\<exists>c. verifier (fhe s) e inputProof = Some c \<and> s' = voteApplied u n e c s"
  using assms by (auto simp: submitChoice_eq split: if_splits option.splits)

subsection \<open>The outcome of creating a prediction\<close>

lemma map_zero_range:
  "map (\<lambda>h. if h \<in> set [a..<b] then 0 else g h) [a..<b] = replicate (b - a) (0::uint32)"
proof -
  have "map (\<lambda>h. if h \<in> set [a..<b] then 0 else g h) [a..<b] = map (\<lambda>h. 0) [a..<b]"
    by (rule map_cong) simp_all
  then show ?thesis by (simp add: map_replicate_const)
qed

lemma createPrediction_InlD:
  "createPrediction u ts nm opts s = Inl err \<Longrightarrow>
   err \<in> {Name_required, Options_must_be_2_4, Empty_option}"
  by (auto simp: createPrediction_eq split: if_splits)

subsection \<open>The vote ledger under any call\<close>

lemma hasVoted_execute:
  "hasVoted (execute c s) predictionId a \<longleftrightarrow>
     hasVoted s predictionId a \<or>
     (\<exists>e inputProof. c = SubmitChoice a predictionId e inputProof \<and> failure c s = None)"
proof (cases c)
  case (SubmitChoice u n e pr)
  then show ?thesis
    by (auto simp: submitChoice_eq voteApplied_simple split: option.splits)
next
  case (CreatePrediction u ts nm opts)
  then show ?thesis by (simp add: createPrediction_eq)
next
  case (ClosePrediction n)
  then show ?thesis by (simp add: closePrediction_eq)
qed simp_all

lemma hasVoted_run:
  "hasVoted s predictionId a \<Longrightarrow> hasVoted (run cs s) predictionId a"
  by (induction cs arbitrary: s) (simp_all add: hasVoted_execute)

subsection \<open>The example with two predictions, evaluated\<close>

lemma twoMarkets_fields:
  "length (predictions twoMarkets) = 2"
  "predictions twoMarkets ! 0 = predictions market ! 0"
  "isOpen (predictions twoMarkets ! 0)"
  "isOpen (predictions twoMarkets ! 1)"
  "hasVoted twoMarkets = (\<lambda>_ _. False)"
  "verifier (fhe twoMarkets) = exampleVerifier"
  by (simp_all add: twoMarkets_def createPrediction_eq market_fields)

lemma twoMarkets_reachable: "reachable twoMarkets"
  unfolding twoMarkets_def by (intro reachable.intros market_reachable)


subsection \<open>The counters of a prediction under calls that are no vote on it\<close>

lemma execute_vote_length:
  "length (predictions (execute (SubmitChoice u n e inputProof) s)) = length (predictions s)"
  by (simp add: submitChoice_eq voteApplied_simple split: option.splits)

lemma execute_counts_frame:
  assumes "y < length (predictions s)" "\<not> acceptedVote y c s"
  shows "predictions (execute c s) ! y = predictions s ! y \<or>
         (\<exists>n. c = ClosePrediction n \<and> predictions (execute c s) ! y = (predictions s ! y)\<lparr>isOpen := False\<rparr>)"
proof (cases c)
  case (CreatePrediction u ts nm opts)
  with assms show ?thesis by (simp add: createPrediction_eq nth_append)
next
  case (SubmitChoice u n e pr)
  show ?thesis
  proof (cases "n = y")
    case True
    with assms SubmitChoice show ?thesis
      by (simp split: sum.splits)
  next
    case False
    then show ?thesis
      by (simp add: SubmitChoice submitChoice_eq voteApplied_other split: option.splits)
  qed
next
  case (ClosePrediction n)
  with assms show ?thesis by (simp add: closePrediction_eq nth_list_update)
qed simp_all

lemma decrypted_frame:
  assumes "reachable s" "y < length (predictions s)" "\<not> acceptedVote y c s"
  shows "decryptedCounts (execute c s) y = decryptedCounts s y"
proof -
  have cs: "encryptedCounts (predictions (execute c s) ! y) = encryptedCounts (predictions s ! y)"
    using execute_counts_frame [OF assms(2,3)] by auto
  have "clear32 (fhe (execute c s)) h = clear32 (fhe s) h"
    if "h \<in> set (encryptedCounts (predictions s ! y))" for h
    using reachable_slots(4) [OF assms(1,2)] that by (intro execute_old) (simp add: list_all_iff)
  then show ?thesis
    by (simp add: decryptedCounts_def cs)
qed

subsection \<open>The sum of the counters after a vote\<close>

lemma slot_index_iff:
  "n < 2 ^ 32 \<Longrightarrow> c = (of_nat n :: uint32) \<longleftrightarrow> unat c = n"
proof
  assume "n < 2 ^ 32" "c = (of_nat n :: uint32)"
  then show "unat c = n" by (simp add: unat_of_nat)
next
  assume "unat c = n"
  then have "(of_nat (unat c) :: uint32) = of_nat n" by simp
  then show "c = of_nat n" by simp
qed

lemma indicator_sum:
  "n \<le> 4 \<Longrightarrow>
   sum_list (map (\<lambda>j. if c = (of_nat j :: uint32) then 1 else 0) [0..<n]) =
     (if unat c < n then 1 else (0 :: 'a :: semiring_1))"
proof (induction n)
  case 0
  then show ?case by simp
next
  case (Suc n)
  then have "c = (of_nat n :: uint32) \<longleftrightarrow> unat c = n"
    by (intro slot_index_iff) simp
  with Suc show ?case by auto
qed

lemma sum_list_pointwise:
  "sum_list (map (\<lambda>j. d ! j + g j) [0..<length d]) = sum_list d + sum_list (map g [0..<length d])"
  for d :: "'a :: comm_monoid_add list"
proof -
  have "sum_list (map (\<lambda>j. d ! j + g j) [0..<length d]) =
        sum_list (map (\<lambda>j. d ! j) [0..<length d]) + sum_list (map g [0..<length d])"
    by (rule sum_list_addf)
  then show ?thesis by (simp add: map_nth)
qed

lemma decrypted_length:
  "reachable s \<Longrightarrow> n < length (predictions s) \<Longrightarrow>
   length (decryptedCounts s n) = length (options (predictions s ! n))"
  by (simp add: decryptedCounts_def reachable_slots(1))

lemma vote_sum:
  assumes "reachable s" "n < length (predictions s)"
  shows "sum_list (decryptedCounts (voteApplied u n e c s) n) =
         sum_list (decryptedCounts s n) +
           (if unat c < length (options (predictions s ! n)) then 1 else 0)"
proof -
  let ?d = "decryptedCounts s n"
  have len: "length ?d = length (options (predictions s ! n))"
    by (rule decrypted_length [OF assms])
  have "sum_list (decryptedCounts (voteApplied u n e c s) n) =
        sum_list (map (\<lambda>j. ?d ! j + (if c = of_nat j then 1 else 0)) [0..<length ?d])"
    by (simp only: voteApplied_decrypted [OF assms] len)
  also have "\<dots> = sum_list ?d + sum_list (map (\<lambda>j. if c = of_nat j then 1 else 0) [0..<length ?d])"
    by (rule sum_list_pointwise)
  also have "sum_list (map (\<lambda>j. if c = of_nat j then 1 else 0) [0..<length ?d]) =
             (if unat c < length ?d then 1 else (0 :: uint32))"
    by (rule indicator_sum) (simp add: len reachable_slots(2) [OF assms])
  finally show ?thesis by (simp only: len)
qed

lemma vote_sum_nat:
  assumes "reachable s" "n < length (predictions s)"
    and "sum_list (map unat (decryptedCounts s n)) + 1 < 2 ^ 32"
  shows "sum_list (map unat (decryptedCounts (voteApplied u n e c s) n)) =
         sum_list (map unat (decryptedCounts s n)) +
           (if unat c < length (options (predictions s ! n)) then 1 else 0)"
proof -
  let ?d = "decryptedCounts s n"
  let ?m = "map unat ?d"
  have len: "length ?d = length (options (predictions s ! n))"
    by (rule decrypted_length [OF assms(1,2)])
  have small: "unat (?d ! j) + 1 < 2 ^ 32" if "j < length ?d" for j
  proof -
    have "?m ! j \<le> sum_list ?m"
      by (rule elem_le_sum_list) (use that in simp)
    then show ?thesis using assms(3) that by simp
  qed
  have un: "unat (?d ! j + (if c = of_nat j then 1 else 0)) =
            ?m ! j + (if c = of_nat j then 1 else 0)" if "j < length ?d" for j
  proof (cases "c = of_nat j")
    case True
    have "unat (?d ! j + 1) = unat (?d ! j) + unat (1 :: uint32)"
      using small [OF that] by (intro unat_add_lem [THEN iffD1]) simp
    with True that show ?thesis by simp
  next
    case False
    with that show ?thesis by simp
  qed
  have "map unat (decryptedCounts (voteApplied u n e c s) n) =
        map (\<lambda>j. ?m ! j + (if c = of_nat j then 1 else 0)) [0..<length ?m]"
    by (simp add: voteApplied_decrypted [OF assms(1,2)] len [symmetric] un cong: map_cong)
  then have "sum_list (map unat (decryptedCounts (voteApplied u n e c s) n)) =
        sum_list ?m + sum_list (map (\<lambda>j. if c = of_nat j then 1 else 0) [0..<length ?m])"
    by (simp only: sum_list_pointwise)
  also have "sum_list (map (\<lambda>j. if c = of_nat j then 1 else 0) [0..<length ?m]) =
             (if unat c < length ?m then 1 else (0 :: nat))"
    by (rule indicator_sum) (simp add: len reachable_slots(2) [OF assms(1,2)])
  finally show ?thesis by (simp add: len)
qed

subsection \<open>The sum of the counters under any call\<close>

lemma inRange_accepted: "inRangeVote p c s \<Longrightarrow> acceptedVote p c s"
  by (cases c) simp_all

lemma acceptedVoteD:
  assumes "acceptedVote p c s"
  shows "\<exists>u e inputProof x. c = SubmitChoice u p e inputProof \<and> p < length (predictions s) \<and>
           \<not> hasVoted s p u \<and> verifier (fhe s) e inputProof = Some x \<and>
           execute c s = voteApplied u p e x s \<and>
           (inRangeVote p c s \<longleftrightarrow> unat x < length (options (predictions s ! p)))"
proof (cases c)
  case (SubmitChoice u n e pr)
  with assms have n: "n = p" and f: "failure (SubmitChoice u p e pr) s = None" by auto
  from f obtain s' where "submitChoice u p e pr s = Inr s'"
    by (auto split: sum.splits)
  from submitChoice_InrD [OF this] this show ?thesis
    using SubmitChoice n f by auto
qed (use assms in simp_all)

lemma unborn_step:
  assumes "\<not> p < length (predictions s)" "p < length (predictions (execute c s))"
  shows "decryptedCounts (execute c s) p = replicate (length (options (predictions (execute c s) ! p))) 0"
proof (cases c)
  case (CreatePrediction u ts nm opts)
  have p: "p = length (predictions s)"
    using assms by (auto simp: CreatePrediction createPrediction_eq split: if_splits)
  have ok: "nm \<noteq> [] \<and> 2 \<le> length opts \<and> length opts \<le> 4 \<and> [] \<notin> set opts"
    using assms by (auto simp: CreatePrediction createPrediction_eq split: if_splits)
  show ?thesis
    using ok map_zero_range [of "nextHandle (fhe s)" "nextHandle (fhe s) + length opts" "clear32 (fhe s)"]
    by (simp add: CreatePrediction createPrediction_eq decryptedCounts_def p)
next
  case (SubmitChoice u n e pr)
  with assms execute_vote_length [of u n e pr s] show ?thesis
    by (simp del: execute.simps)
next
  case (ClosePrediction n)
  with assms show ?thesis by (simp add: closePrediction_eq split: if_splits)
qed (use assms in simp_all)

lemma vote_out_of_range:
  assumes "reachable s" "n < length (predictions s)"
    and "length (options (predictions s ! n)) \<le> unat c"
  shows "decryptedCounts (voteApplied u n e c s) n = decryptedCounts s n"
proof -
  let ?d = "decryptedCounts s n"
  have len: "length ?d = length (options (predictions s ! n))"
    by (rule decrypted_length [OF assms(1,2)])
  have ne: "c \<noteq> of_nat j" if "j < length ?d" for j
  proof -
    have "j < 2 ^ 32" using that reachable_slots(2) [OF assms(1,2)] len by simp
    from slot_index_iff [OF this, of c] that assms(3) len show ?thesis by simp
  qed
  have "decryptedCounts (voteApplied u n e c s) n =
        map (\<lambda>j. ?d ! j + (if c = of_nat j then 1 else 0)) [0..<length ?d]"
    by (simp only: voteApplied_decrypted [OF assms(1,2)] len)
  also have "\<dots> = map (\<lambda>j. ?d ! j) [0..<length ?d]"
    by (rule map_cong) (simp_all add: ne)
  finally show ?thesis by (simp add: map_nth)
qed

lemma tallySum32_execute:
  assumes "reachable s"
  shows "tallySum32 (execute c s) p = tallySum32 s p + (if inRangeVote p c s then 1 else 0)"
proof (cases "p < length (predictions s)")
  case True
  then have p': "p < length (predictions (execute c s))"
    using execute_existing [of p s c] by simp
  show ?thesis
  proof (cases "acceptedVote p c s")
    case True
    from acceptedVoteD [OF this] obtain u e inputProof x where
      "execute c s = voteApplied u p e x s"
      "inRangeVote p c s \<longleftrightarrow> unat x < length (options (predictions s ! p))"
      by blast
    then show ?thesis
      using \<open>p < length (predictions s)\<close> p'
      by (simp add: tallySum32_def vote_sum [OF assms] voteApplied_simple)
  next
    case False
    then have "\<not> inRangeVote p c s" using inRange_accepted by blast
    then show ?thesis
      using True p' by (simp add: tallySum32_def decrypted_frame [OF assms True False])
  qed
next
  case False
  then have "\<not> inRangeVote p c s" using inRange_accepted acceptedVoteD by blast
  then show ?thesis
    using False unborn_step [OF False, of c] by (simp add: tallySum32_def sum_list_replicate)
qed

lemma tallySum_execute:
  assumes "reachable s" "tallySum s p + (if inRangeVote p c s then 1 else 0) < 2 ^ 32"
  shows "tallySum (execute c s) p = tallySum s p + (if inRangeVote p c s then 1 else 0)"
proof (cases "p < length (predictions s)")
  case True
  then have p': "p < length (predictions (execute c s))"
    using execute_existing [of p s c] by simp
  show ?thesis
  proof (cases "acceptedVote p c s")
    case True
    from acceptedVoteD [OF this] obtain u e inputProof x where
      ex: "execute c s = voteApplied u p e x s"
      and ir: "inRangeVote p c s \<longleftrightarrow> unat x < length (options (predictions s ! p))"
      by blast
    show ?thesis
    proof (cases "inRangeVote p c s")
      case True
      then have "sum_list (map unat (decryptedCounts s p)) + 1 < 2 ^ 32"
        using assms(2) \<open>p < length (predictions s)\<close> by (simp add: tallySum_def)
      from vote_sum_nat [OF assms(1) \<open>p < length (predictions s)\<close> this, of u e x]
      show ?thesis
        using \<open>p < length (predictions s)\<close> ir
        by (simp add: tallySum_def ex voteApplied_simple)
    next
      case False
      then have "length (options (predictions s ! p)) \<le> unat x" using ir by simp
      then have "decryptedCounts (voteApplied u p e x s) p = decryptedCounts s p"
        using vote_out_of_range [OF assms(1) \<open>p < length (predictions s)\<close>] by simp
      then show ?thesis
        using False \<open>p < length (predictions s)\<close>
        by (simp add: tallySum_def ex voteApplied_simple)
    qed
  next
    case False
    then have "\<not> inRangeVote p c s" using inRange_accepted by blast
    then show ?thesis
      using True p' by (simp add: tallySum_def decrypted_frame [OF assms(1) True False])
  qed
next
  case False
  then have "\<not> inRangeVote p c s" using inRange_accepted acceptedVoteD by blast
  then show ?thesis
    using False unborn_step [OF False, of c] by (simp add: tallySum_def sum_list_replicate)
qed

subsection \<open>Voters and sums over a history\<close>

lemma voters_execute:
  "card (voters (execute c s) p) = card (voters s p) + (if acceptedVote p c s then 1 else 0)"
proof (cases "acceptedVote p c s")
  case True
  from acceptedVoteD [OF this] obtain u e inputProof where
    c: "c = SubmitChoice u p e inputProof" and u: "\<not> hasVoted s p u"
    by blast
  have f: "failure c s = None" using True c by simp
  have "voters (execute c s) p = insert u (voters s p)"
    unfolding voters_def using hasVoted_execute [of c s p] c f by auto
  moreover have "u \<notin> voters s p" using u by (simp add: voters_def)
  ultimately show ?thesis using True by simp
next
  case False
  have "\<not> (\<exists>e inputProof. c = SubmitChoice a p e inputProof \<and> failure c s = None)" for a
    using False by auto
  then have "hasVoted (execute c s) p a = hasVoted s p a" for a
    using hasVoted_execute [of c s p a] by blast
  then have "hasVoted (execute c s) p = hasVoted s p"
    by (rule ext)
  then have "voters (execute c s) p = voters s p"
    by (simp add: voters_def)
  with False show ?thesis by simp
qed

lemma voters_run:
  "card (voters (run cs s) p) = card (voters s p) + countCalls (acceptedVote p) cs s"
  by (induction cs arbitrary: s) (simp_all add: voters_execute)

lemma inRange_le_accepted:
  "countCalls (inRangeVote p) cs s \<le> countCalls (acceptedVote p) cs s"
proof (induction cs arbitrary: s)
  case Nil
  then show ?case by simp
next
  case (Cons c cs)
  from Cons [of "execute c s"] inRange_accepted [of p c s] show ?case
    by auto
qed

lemma tallySum32_run:
  "reachable s \<Longrightarrow>
   tallySum32 (run cs s) p = tallySum32 s p + of_nat (countCalls (inRangeVote p) cs s)"
proof (induction cs arbitrary: s)
  case Nil
  then show ?case by simp
next
  case (Cons c cs)
  have "reachable (execute c s)" using Cons.prems by (rule reachable_execute)
  from Cons.IH [OF this] show ?case
    by (simp add: tallySum32_execute [OF Cons.prems] del: execute.simps)
qed

lemma tallySum_run:
  "reachable s \<Longrightarrow> tallySum s p + countCalls (inRangeVote p) cs s < 2 ^ 32 \<Longrightarrow>
   tallySum (run cs s) p = tallySum s p + countCalls (inRangeVote p) cs s"
proof (induction cs arbitrary: s)
  case Nil
  then show ?case by simp
next
  case (Cons c cs)
  have r: "reachable (execute c s)" using Cons.prems(1) by (rule reachable_execute)
  have b: "tallySum s p + (if inRangeVote p c s then 1 else 0) < 2 ^ 32"
    using Cons.prems(2) by (simp split: if_splits del: execute.simps)
  note st = tallySum_execute [OF Cons.prems(1) b]
  have "tallySum (execute c s) p + countCalls (inRangeVote p) cs (execute c s) < 2 ^ 32"
    using Cons.prems(2) st by (simp split: if_splits del: execute.simps)
  from Cons.IH [OF r this] st show ?case
    by (simp del: execute.simps)
qed

lemma tallySum_deployed:
  "tallySum32 (deployed this v) p = 0" "tallySum (deployed this v) p = 0"
  "card (voters (deployed this v) p) = 0"
  by (simp_all add: tallySum32_def tallySum_def voters_def deployed_def)

subsection \<open>The example with a choice outside the options, evaluated\<close>

lemma outsider_vote:
  "execute (SubmitChoice 2 0 7 [5]) market = voteApplied 2 0 7 7 market"
  by (simp add: submitChoice_eq market_fields exampleVerifier_def)

lemma outsider_fields:
  "length (predictions (voteApplied 2 0 7 7 market)) = 1"
  "isOpen (predictions (voteApplied 2 0 7 7 market) ! 0)"
  "options (predictions (voteApplied 2 0 7 7 market) ! 0) = [''Up'', ''Down'']"
  "hasVoted (voteApplied 2 0 7 7 market) 0 4 = False"
  "verifier (fhe (voteApplied 2 0 7 7 market)) = exampleVerifier"
  by (simp_all add: voteApplied_simple voteApplied_counts market_fields)

section \<open>The claims\<close>

subsection \<open>C1: a vote adds one to the chosen counter\<close>

text \<open>
  C1. In a reachable state, for an open prediction with \<open>n\<close> options and an index
  \<open>k < n\<close>, a successful \<^verbatim>\<open>submitChoice\<close> whose input attests to \<open>k\<close> leaves \<open>n\<close>
  counters, of which counter \<open>k\<close> decrypts to its former value plus one and every other
  counter to its former value. The addition is that of \<^verbatim>\<open>euint32\<close>, on 32 bits: read as a
  number, the counter grows by one unless it stood at \<open>2 ^ 32 - 1\<close>.
\<close>

theorem submitChoice_increments:
  assumes "reachable s"
    and "predictionId < length (predictions s)"
    and "isOpen (predictions s ! predictionId)"
    and "k < length (options (predictions s ! predictionId))"
    and "verifier (fhe s) encryptedChoice inputProof = Some (of_nat k)"
    and "submitChoice msg_sender predictionId encryptedChoice inputProof s = Inr s'"
  shows "length (decryptedCounts s' predictionId) = length (options (predictions s ! predictionId)) \<and>
         decryptedCounts s' predictionId ! k = decryptedCounts s predictionId ! k + 1 \<and>
         (unat (decryptedCounts s predictionId ! k) + 1 < 2 ^ 32 \<longrightarrow>
            unat (decryptedCounts s' predictionId ! k) = unat (decryptedCounts s predictionId ! k) + 1) \<and>
         (\<forall>j < length (options (predictions s ! predictionId)). j \<noteq> k \<longrightarrow>
            decryptedCounts s' predictionId ! j = decryptedCounts s predictionId ! j)"
proof -
  note sl = reachable_slots [OF assms(1,2)]
  have s': "s' = voteApplied msg_sender predictionId encryptedChoice (of_nat k) s"
    using assms(5,6) by (simp add: submitChoice_eq split: if_splits)
  have d: "decryptedCounts s' predictionId =
         map (\<lambda>j. decryptedCounts s predictionId ! j + (if (of_nat k :: uint32) = of_nat j then 1 else 0))
             [0..<length (options (predictions s ! predictionId))]"
    unfolding s' by (rule voteApplied_decrypted [OF assms(1,2)])
  have inj: "(of_nat k :: uint32) = of_nat j \<longleftrightarrow> k = j"
    if "j < length (options (predictions s ! predictionId))" for j
    using that assms(4) sl(2) by (intro of_nat_slot_eq) simp_all
  have k: "decryptedCounts s' predictionId ! k = decryptedCounts s predictionId ! k + 1"
    using assms(4) by (simp add: d inj)
  have "unat (decryptedCounts s predictionId ! k + 1) =
        unat (decryptedCounts s predictionId ! k) + unat (1 :: uint32)"
    if "unat (decryptedCounts s predictionId ! k) + 1 < 2 ^ 32"
    using that by (intro unat_add_lem [THEN iffD1]) simp
  then have n: "unat (decryptedCounts s predictionId ! k) + 1 < 2 ^ 32 \<longrightarrow>
            unat (decryptedCounts s' predictionId ! k) = unat (decryptedCounts s predictionId ! k) + 1"
    by (simp add: k)
  have o: "\<forall>j < length (options (predictions s ! predictionId)). j \<noteq> k \<longrightarrow>
            decryptedCounts s' predictionId ! j = decryptedCounts s predictionId ! j"
    by (auto simp: d inj)
  have l: "length (decryptedCounts s' predictionId) = length (options (predictions s ! predictionId))"
    by (simp add: d)
  from l k n o show ?thesis by (intro conjI)
qed

theorem submitChoice_increments_witness:
  "decryptedCounts market 0 = [0, 0] \<and>
   decryptedCounts (execute (SubmitChoice 2 0 1 [5]) market) 0 = [0, 1] \<and>
   map unat (decryptedCounts (execute (SubmitChoice 2 0 1 [5]) market) 0) = [0, 1]"
proof -
  let ?s' = "execute (SubmitChoice 2 0 1 [5]) market"
  have ok: "submitChoice 2 0 1 [5] market = Inr ?s'"
    by (rule vote_ok) (simp_all add: market_fields)
  have before: "decryptedCounts market 0 = [0, 0]"
    by (simp add: decryptedCounts_def market_fields)
  have pre: "0 < length (predictions market)" "isOpen (predictions market ! 0)"
    "1 < length (options (predictions market ! 0))"
    "verifier (fhe market) 1 [5] = Some (of_nat 1)"
    by (simp_all add: market_fields exampleVerifier_def)
  note a = submitChoice_increments [OF market_reachable pre ok]
  have l: "length (decryptedCounts ?s' 0) = 2"
    using a [THEN conjunct1] by (simp add: market_fields del: execute.simps)
  have 1: "decryptedCounts ?s' 0 ! 1 = 1"
    using a [THEN conjunct2, THEN conjunct1] by (simp add: before del: execute.simps)
  have 0: "decryptedCounts ?s' 0 ! 0 = 0"
    using a [THEN conjunct2, THEN conjunct2, THEN conjunct2, rule_format, of 0]
    by (simp add: before market_fields del: execute.simps)
  have "decryptedCounts ?s' 0 = [decryptedCounts ?s' 0 ! 0, decryptedCounts ?s' 0 ! 1]"
    using l by (intro nth_equalityI) (auto simp: less_Suc_eq numeral_2_eq_2 simp del: execute.simps)
  then have after: "decryptedCounts ?s' 0 = [0, 1]"
    by (simp only: 0 1)
  have "map unat (decryptedCounts ?s' 0) = [0, 1]"
    by (simp only: after) simp
  with before after show ?thesis by (intro conjI)
qed

subsection \<open>C2: the requirements of a vote, in order\<close>

text \<open>
  C2. \<^verbatim>\<open>submitChoice\<close> fails with \<open>InvalidPrediction\<close> on an unknown id, else with
  \<open>BallotClosed\<close> on a closed prediction, else with \<open>AlreadyVoted\<close> when the caller has a
  vote record for it, and only then, on a bad proof, with \<open>InvalidProof\<close>; otherwise it
  succeeds. A failed call leaves the state as it was. After a successful vote, every further
  vote of the same caller on the same prediction, whatever its input, fails with
  \<open>AlreadyVoted\<close> and changes nothing, so the tally holds the first vote only.
\<close>

theorem submitChoice_requirements:
  "(\<not> predictionId < length (predictions s) \<longrightarrow>
      submitChoice u predictionId e inputProof s = Inl Invalid_prediction) \<and>
   (predictionId < length (predictions s) \<and> \<not> isOpen (predictions s ! predictionId) \<longrightarrow>
      submitChoice u predictionId e inputProof s = Inl Prediction_closed) \<and>
   (predictionId < length (predictions s) \<and> isOpen (predictions s ! predictionId) \<and>
    hasVoted s predictionId u \<longrightarrow>
      submitChoice u predictionId e inputProof s = Inl Already_voted) \<and>
   (predictionId < length (predictions s) \<and> isOpen (predictions s ! predictionId) \<and>
    \<not> hasVoted s predictionId u \<and> verifier (fhe s) e inputProof = None \<longrightarrow>
      submitChoice u predictionId e inputProof s = Inl Invalid_proof) \<and>
   (predictionId < length (predictions s) \<and> isOpen (predictions s ! predictionId) \<and>
    \<not> hasVoted s predictionId u \<and> verifier (fhe s) e inputProof \<noteq> None \<longrightarrow>
      (\<exists>s'. submitChoice u predictionId e inputProof s = Inr s')) \<and>
   condition_of Invalid_prediction = InvalidPrediction \<and>
   condition_of Prediction_closed = BallotClosed \<and>
   condition_of Already_voted = AlreadyVoted \<and>
   condition_of Invalid_proof = InvalidProof \<and>
   (\<forall>err. submitChoice u predictionId e inputProof s = Inl err \<longrightarrow>
      execute (SubmitChoice u predictionId e inputProof) s = s) \<and>
   (\<forall>s'. submitChoice u predictionId e inputProof s = Inr s' \<longrightarrow>
      (\<forall>e' inputProof'.
         submitChoice u predictionId e' inputProof' s' = Inl Already_voted \<and>
         execute (SubmitChoice u predictionId e' inputProof') s' = s'))"
proof -
  have twice: "submitChoice u predictionId e' inputProof' s' = Inl Already_voted"
    if "submitChoice u predictionId e inputProof s = Inr s'" for s' e' inputProof'
  proof -
    from that obtain c where n: "predictionId < length (predictions s)"
      and o: "isOpen (predictions s ! predictionId)"
      and s': "s' = voteApplied u predictionId e c s"
      by (auto simp: submitChoice_eq split: if_splits option.splits)
    have "isOpen (predictions s' ! predictionId)"
      using o by (simp add: s' voteApplied_counts [OF n])
    then show ?thesis
      using n by (simp add: submitChoice_eq s' voteApplied_simple)
  qed
  then have "execute (SubmitChoice u predictionId e' inputProof') s' = s'"
    if "submitChoice u predictionId e inputProof s = Inr s'" for s' e' inputProof'
    using that by simp
  with twice show ?thesis
    by (auto simp: submitChoice_eq split: option.splits)
qed


theorem submitChoice_requirements_witness:
  "submitChoice 2 0 1 [5] market = Inr (execute (SubmitChoice 2 0 1 [5]) market) \<and>
   submitChoice 2 0 0 [9] (execute (SubmitChoice 2 0 1 [5]) market) = Inl Already_voted \<and>
   execute (SubmitChoice 2 0 0 [9]) (execute (SubmitChoice 2 0 1 [5]) market) =
     execute (SubmitChoice 2 0 1 [5]) market \<and>
   submitChoice 2 0 1 [] market = Inl Invalid_proof \<and>
   submitChoice 2 9 1 [5] market = Inl Invalid_prediction"
proof -
  have ok: "submitChoice 2 0 1 [5] market = Inr (execute (SubmitChoice 2 0 1 [5]) market)"
    by (rule vote_ok) (simp_all add: market_fields)
  note r = submitChoice_requirements [of 0 market 2 1 "[5]"]
  note p = submitChoice_requirements [of 0 market 2 1 "[]"]
  note q = submitChoice_requirements [of 9 market 2 1 "[5]"]
  have pre: "0 < length (predictions market)" "isOpen (predictions market ! 0)"
    "\<not> hasVoted market 0 2" "verifier (fhe market) 1 [] = None"
    "\<not> 9 < length (predictions market)"
    by (simp_all add: market_fields exampleVerifier_def)
  have "submitChoice 2 0 1 [] market = Inl Invalid_proof"
    using p pre by blast
  moreover have "submitChoice 2 9 1 [5] market = Inl Invalid_prediction"
    using q pre by blast
  moreover have "submitChoice 2 0 0 [9] (execute (SubmitChoice 2 0 1 [5]) market) = Inl Already_voted \<and>
    execute (SubmitChoice 2 0 0 [9]) (execute (SubmitChoice 2 0 1 [5]) market) =
      execute (SubmitChoice 2 0 1 [5]) market"
    using r ok by blast
  ultimately show ?thesis using ok by blast
qed

subsection \<open>C3: closing is one-way\<close>


lemma closed_stays:
  "predictionId < length (predictions s) \<Longrightarrow> \<not> isOpen (predictions s ! predictionId) \<Longrightarrow>
   predictionId < length (predictions (run cs s)) \<and> \<not> isOpen (predictions (run cs s) ! predictionId)"
proof (induction cs arbitrary: s)
  case Nil
  then show ?case by simp
next
  case (Cons c cs)
  from Cons.prems execute_existing [of predictionId s c]
  have "predictionId < length (predictions (execute c s))"
    "\<not> isOpen (predictions (execute c s) ! predictionId)" by auto
  then show ?case using Cons.IH by simp
qed

text \<open>
  C3. \<^verbatim>\<open>closePrediction\<close> fails with \<open>InvalidPrediction\<close> on an id that is not below the
  number of predictions and with \<open>AlreadyClosed\<close> on a prediction that is not open. Otherwise
  it clears \<open>isOpen\<close> and calls \<^verbatim>\<open>FHE.makePubliclyDecryptable\<close> once on every counter of the
  prediction, in order, so that the decryption service reveals each of them. A prediction
  that is closed stays closed under every sequence of calls.
\<close>

theorem closePrediction_one_way:
  "(\<not> predictionId < length (predictions s) \<longrightarrow>
      closePrediction predictionId s = Inl Invalid_prediction) \<and>
   (predictionId < length (predictions s) \<and> \<not> isOpen (predictions s ! predictionId) \<longrightarrow>
      closePrediction predictionId s = Inl Already_closed) \<and>
   condition_of Invalid_prediction = InvalidPrediction \<and>
   condition_of Already_closed = AlreadyClosed \<and>
   (predictionId < length (predictions s) \<and> isOpen (predictions s ! predictionId) \<longrightarrow>
      (\<exists>s'. closePrediction predictionId s = Inr s' \<and>
            length (predictions s') = length (predictions s) \<and>
            \<not> isOpen (predictions s' ! predictionId) \<and>
            encryptedCounts (predictions s' ! predictionId) =
              encryptedCounts (predictions s ! predictionId) \<and>
            oplog (fhe s') = oplog (fhe s) @
              map OpMakePubliclyDecryptable (encryptedCounts (predictions s ! predictionId)) \<and>
            publiclyDecryptable (fhe s') =
              publiclyDecryptable (fhe s) \<union> set (encryptedCounts (predictions s ! predictionId)) \<and>
            revealedCounts s' predictionId = map Some (decryptedCounts s predictionId))) \<and>
   (\<forall>cs. predictionId < length (predictions s) \<and> \<not> isOpen (predictions s ! predictionId) \<longrightarrow>
      predictionId < length (predictions (run cs s)) \<and>
      \<not> isOpen (predictions (run cs s) ! predictionId))"
  using closed_stays [of predictionId s]
  by (simp add: closePrediction_eq revealedCounts_def decryptedCounts_def publicDecrypt_def)

theorem closePrediction_one_way_witness:
  "closePrediction 0 market = Inr (execute (ClosePrediction 0) market) \<and>
   revealedCounts (execute (ClosePrediction 0) market) 0 = [Some 0, Some 0] \<and>
   closePrediction 0 (execute (ClosePrediction 0) market) = Inl Already_closed \<and>
   closePrediction 4 market = Inl Invalid_prediction \<and>
   \<not> isOpen (predictions
        (run [SubmitChoice 2 0 1 [5], CreatePrediction 3 8 ''x'' [''a'', ''b''], ClosePrediction 0]
           (execute (ClosePrediction 0) market)) ! 0)"
proof -
  let ?s = "execute (ClosePrediction 0) market"
  have ok: "closePrediction 0 market = Inr ?s"
    by (simp add: closePrediction_eq market_fields)
  have d: "decryptedCounts market 0 = [0, 0]"
    by (simp add: decryptedCounts_def market_fields)
  note a = closePrediction_one_way [of 0 market]
  from a ok d have c: "length (predictions ?s) = 1" "\<not> isOpen (predictions ?s ! 0)"
    "revealedCounts ?s 0 = [Some 0, Some 0]"
    by (simp_all add: market_fields del: execute.simps)
  note b = closePrediction_one_way [of 0 ?s]
  note e = closePrediction_one_way [of 4 market]
  have "closePrediction 4 market = Inl Invalid_prediction"
    using e by (simp add: market_fields)
  moreover have "closePrediction 0 ?s = Inl Already_closed"
    using b c(1,2) by (simp del: execute.simps)
  moreover have "0 < length (predictions ?s) \<and> \<not> isOpen (predictions ?s ! 0)"
    using c(1,2) by (simp del: execute.simps)
  then have "\<not> isOpen (predictions
        (run [SubmitChoice 2 0 1 [5], CreatePrediction 3 8 ''x'' [''a'', ''b''], ClosePrediction 0] ?s) ! 0)"
    using b by blast
  ultimately show ?thesis using c(3) ok by blast
qed

subsection \<open>C4: the shape of every stored prediction\<close>

text \<open>
  C4. In every reachable state every stored prediction has as many counters as options,
  between two and four options, and no empty option label. The invariant holds when the
  contract is deployed and every call, views included, preserves it.
\<close>

theorem invariant_always:
  "(reachable s \<longrightarrow>
      (\<forall>p \<in> set (predictions s).
         length (options p) = length (encryptedCounts p) \<and>
         2 \<le> length (options p) \<and> length (options p) \<le> 4 \<and>
         (\<forall>label \<in> set (options p). label \<noteq> []))) \<and>
   invariant (deployed this v) \<and>
   (invariant s \<longrightarrow> invariant (execute c s))"
proof -
  have "\<forall>p \<in> set (predictions s).
         length (options p) = length (encryptedCounts p) \<and>
         2 \<le> length (options p) \<and> length (options p) \<le> 4 \<and>
         (\<forall>label \<in> set (options p). label \<noteq> [])" if "reachable s"
    using reachable_invariant [OF that]
    by (auto simp: invariant_def list_all_iff wellFormed_def)
  then show ?thesis
    using invariant_deployed [of this v] invariant_execute [of s c] by blast
qed

theorem invariant_always_witness:
  "reachable market \<and> invariant market \<and>
   invariant (execute (SubmitChoice 2 0 1 [5]) market) \<and>
   map (\<lambda>p. (length (options p), length (encryptedCounts p))) (predictions market) = [(2, 2)]"
proof -
  note a = invariant_always [of market 7 exampleVerifier "SubmitChoice 2 0 1 [5]"]
  have "\<forall>p \<in> set (predictions market).
         length (options p) = length (encryptedCounts p) \<and>
         2 \<le> length (options p) \<and> length (options p) \<le> 4 \<and>
         (\<forall>label \<in> set (options p). label \<noteq> [])"
    using a market_reachable by blast
  then have i: "invariant market"
    by (auto simp: invariant_def list_all_iff wellFormed_def)
  then have "invariant (execute (SubmitChoice 2 0 1 [5]) market)"
    using a by blast
  moreover have "map (\<lambda>p. (length (options p), length (encryptedCounts p))) (predictions market) = [(2, 2)]"
    by (simp add: market_fields)
  ultimately show ?thesis using i market_reachable by blast
qed

subsection \<open>C5: a vote has the same shape whatever the choice\<close>

text \<open>
  C5. Two successful votes cast from the same reachable state, by the same caller on the
  same prediction, with any two inputs and so any two choices, are observed alike: they
  leave the same storage, events, handles, rights and public flags, and ask the collaborator
  for the same sequence of operations. That sequence is the decoding of the input, the
  encryption of one and of zero, and then for every slot in order one equality test against
  the slot index, one selection, one addition and one grant. Every slot gets a new counter
  handle, produced by the one addition whose operand is the slot's former counter.
\<close>

theorem constant_shape:
  assumes "reachable s"
    and "submitChoice u predictionId e1 inputProof1 s = Inr s1"
    and "submitChoice u predictionId e2 inputProof2 s = Inr s2"
  shows "observed s1 = observed s2 \<and>
         map shape (oplog (fhe s1)) =
           map shape (oplog (fhe s)) @ [FromExternal, TrivialEncrypt 1, TrivialEncrypt 0] @
           concat (map (\<lambda>i. [Eq (of_nat i), Select, Add, Allow])
                       [0..<length (options (predictions s ! predictionId))]) \<and>
         length (encryptedCounts (predictions s1 ! predictionId)) =
           length (options (predictions s ! predictionId)) \<and>
         (\<forall>i < length (options (predictions s ! predictionId)).
            encryptedCounts (predictions s1 ! predictionId) ! i \<noteq>
              encryptedCounts (predictions s ! predictionId) ! i \<and>
            OpAdd (encryptedCounts (predictions s ! predictionId) ! i)
                  (nextHandle (fhe s) + 3 * i + 4)
                  (encryptedCounts (predictions s1 ! predictionId) ! i) \<in> set (oplog (fhe s1)))"
proof -
  note d1 = submitChoice_InrD [OF assms(2)]
  note d2 = submitChoice_InrD [OF assms(3)]
  from d1(4) obtain c1 where s1: "s1 = voteApplied u predictionId e1 c1 s" by blast
  from d2(4) obtain c2 where s2: "s2 = voteApplied u predictionId e2 c2 s" by blast
  note n = d1(1)
  note sl = reachable_slots [OF assms(1) n]
  let ?n = "length (options (predictions s ! predictionId))"
  let ?cs = "encryptedCounts (predictions s ! predictionId)"
  have obs: "observed s1 = observed s2"
    by (simp add: observed_def s1 s2 voteApplied_predictions [OF n] voteApplied_simple
                  voteApplied_allowed voteApplied_shapes)
  have sh: "map shape (oplog (fhe s1)) =
           map shape (oplog (fhe s)) @ [FromExternal, TrivialEncrypt 1, TrivialEncrypt 0] @
           concat (map (\<lambda>i. [Eq (of_nat i), Select, Add, Allow]) [0..<?n])"
    by (simp add: s1 voteApplied_shapes sl(1))
  have len: "length (encryptedCounts (predictions s1 ! predictionId)) = ?n"
    by (simp add: s1 voteApplied_counts [OF n] sl(1))
  have slot: "encryptedCounts (predictions s1 ! predictionId) ! i \<noteq> ?cs ! i \<and>
            OpAdd (?cs ! i) (nextHandle (fhe s) + 3 * i + 4)
                  (encryptedCounts (predictions s1 ! predictionId) ! i) \<in> set (oplog (fhe s1))"
    if i: "i < ?n" for i
  proof -
    have new: "encryptedCounts (predictions s1 ! predictionId) ! i = nextHandle (fhe s) + 3 * i + 5"
      using i by (simp add: s1 voteApplied_counts [OF n] sl(1))
    have "?cs ! i < nextHandle (fhe s)"
      using sl(4) i by (simp add: list_all_length sl(1))
    then have "encryptedCounts (predictions s1 ! predictionId) ! i \<noteq> ?cs ! i"
      using new by simp
    moreover have "OpAdd (?cs ! i) (nextHandle (fhe s) + 3 * i + 4) (nextHandle (fhe s) + 3 * i + 5)
        \<in> set (oplog (fhe s1))"
      using i by (auto simp: s1 voteApplied_oplog sl(1))
    ultimately show ?thesis unfolding new by blast
  qed
  from obs sh len slot show ?thesis by blast
qed

theorem constant_shape_witness:
  "observed (execute (SubmitChoice 2 0 0 [5]) market) =
   observed (execute (SubmitChoice 2 0 1 [6, 6]) market) \<and>
   map shape (oplog (fhe (execute (SubmitChoice 2 0 0 [5]) market))) =
     map shape (oplog (fhe market)) @
     [FromExternal, TrivialEncrypt 1, TrivialEncrypt 0,
      Eq 0, Select, Add, Allow, Eq 1, Select, Add, Allow]"
proof -
  have ok1: "submitChoice 2 0 0 [5] market = Inr (execute (SubmitChoice 2 0 0 [5]) market)"
    by (rule vote_ok) (simp_all add: market_fields)
  have ok2: "submitChoice 2 0 1 [6, 6] market = Inr (execute (SubmitChoice 2 0 1 [6, 6]) market)"
    by (rule vote_ok) (simp_all add: market_fields)
  note a = constant_shape [OF market_reachable ok1 ok2]
  have "concat (map (\<lambda>i. [Eq (of_nat i), Select, Add, Allow])
          [0..<length (options (predictions market ! 0))]) =
        [Eq 0, Select, Add, Allow, Eq 1, Select, Add, Allow]"
    by (simp add: market_fields upt_conv_Cons del: upt_Suc)
  with a show ?thesis by (simp del: execute.simps)
qed

subsection \<open>C6: creating a prediction\<close>

text \<open>
  C6. \<^verbatim>\<open>createPrediction\<close> fails on an empty name, else on an option count outside two to
  four, else on an empty option label; the specification calls each of the three
  \<open>InvalidInput\<close>, and a failed call leaves the state as it was. Otherwise it succeeds and
  returns the number of predictions before the call as the new id; the predictions stored
  before stay as they were, and the new one has the given name and options, is open, carries
  the block timestamp, and has one counter per option, each decrypting to zero and each with
  the contract allowed to operate on it. No call changes the name or the options of a
  stored prediction.
\<close>

theorem createPrediction_spec:
  "(nm = [] \<longrightarrow> createPrediction u ts nm opts s = Inl Name_required) \<and>
   (nm \<noteq> [] \<and> \<not> (2 \<le> length opts \<and> length opts \<le> 4) \<longrightarrow>
      createPrediction u ts nm opts s = Inl Options_must_be_2_4) \<and>
   (nm \<noteq> [] \<and> 2 \<le> length opts \<and> length opts \<le> 4 \<and> [] \<in> set opts \<longrightarrow>
      createPrediction u ts nm opts s = Inl Empty_option) \<and>
   condition_of Name_required = InvalidInput \<and>
   condition_of Options_must_be_2_4 = InvalidInput \<and>
   condition_of Empty_option = InvalidInput \<and>
   (\<forall>err. createPrediction u ts nm opts s = Inl err \<longrightarrow>
      condition_of err = InvalidInput \<and> execute (CreatePrediction u ts nm opts) s = s) \<and>
   (nm \<noteq> [] \<and> 2 \<le> length opts \<and> length opts \<le> 4 \<and> [] \<notin> set opts \<longrightarrow>
      (\<exists>s'. createPrediction u ts nm opts s = Inr (length (predictions s), s') \<and>
            length (predictions s') = length (predictions s) + 1 \<and>
            take (length (predictions s)) (predictions s') = predictions s \<and>
            name (predictions s' ! length (predictions s)) = nm \<and>
            options (predictions s' ! length (predictions s)) = opts \<and>
            isOpen (predictions s' ! length (predictions s)) \<and>
            createdAt (predictions s' ! length (predictions s)) = ts \<and>
            length (encryptedCounts (predictions s' ! length (predictions s))) = length opts \<and>
            decryptedCounts s' (length (predictions s)) = replicate (length opts) 0 \<and>
            (\<forall>h \<in> set (encryptedCounts (predictions s' ! length (predictions s))).
               (h, thisAddress s) \<in> allowed (fhe s')) \<and>
            events s' = events s @ [PredictionCreated (length (predictions s)) u nm opts])) \<and>
   (\<forall>c y. y < length (predictions s) \<longrightarrow>
      name (predictions (execute c s) ! y) = name (predictions s ! y) \<and>
      options (predictions (execute c s) ! y) = options (predictions s ! y))"
proof -
  have fail: "condition_of err = InvalidInput \<and> execute (CreatePrediction u ts nm opts) s = s"
    if "createPrediction u ts nm opts s = Inl err" for err
    using that createPrediction_InlD [OF that] by auto
  have same: "name (predictions (execute c s) ! y) = name (predictions s ! y) \<and>
      options (predictions (execute c s) ! y) = options (predictions s ! y)"
    if "y < length (predictions s)" for c y
    using execute_existing [OF that, of c] by simp
  have ok: "\<exists>s'. createPrediction u ts nm opts s = Inr (length (predictions s), s') \<and>
            length (predictions s') = length (predictions s) + 1 \<and>
            take (length (predictions s)) (predictions s') = predictions s \<and>
            name (predictions s' ! length (predictions s)) = nm \<and>
            options (predictions s' ! length (predictions s)) = opts \<and>
            isOpen (predictions s' ! length (predictions s)) \<and>
            createdAt (predictions s' ! length (predictions s)) = ts \<and>
            length (encryptedCounts (predictions s' ! length (predictions s))) = length opts \<and>
            decryptedCounts s' (length (predictions s)) = replicate (length opts) 0 \<and>
            (\<forall>h \<in> set (encryptedCounts (predictions s' ! length (predictions s))).
               (h, thisAddress s) \<in> allowed (fhe s')) \<and>
            events s' = events s @ [PredictionCreated (length (predictions s)) u nm opts]"
    if "nm \<noteq> []" "2 \<le> length opts" "length opts \<le> 4" "[] \<notin> set opts"
    using that map_zero_range [of "nextHandle (fhe s)" "nextHandle (fhe s) + length opts" "clear32 (fhe s)"]
    by (simp add: createPrediction_eq decryptedCounts_def)
  show ?thesis
    using fail same ok by (simp add: createPrediction_eq)
qed

theorem createPrediction_spec_witness:
  "createPrediction 1 1700000000 ''BTC price'' [''Up'', ''Down''] (deployed 7 exampleVerifier) =
     Inr (0, market) \<and>
   isOpen (predictions market ! 0) \<and>
   decryptedCounts market 0 = [0, 0] \<and>
   createPrediction 1 1700000000 ''X'' [''A''] (deployed 7 exampleVerifier) = Inl Options_must_be_2_4 \<and>
   createPrediction 1 1700000000 ''X'' [''A'', ''B'', ''C'', ''D'', ''E''] (deployed 7 exampleVerifier) =
     Inl Options_must_be_2_4 \<and>
   createPrediction 1 1700000000 '''' [''A'', ''B''] (deployed 7 exampleVerifier) = Inl Name_required \<and>
   createPrediction 1 1700000000 ''X'' [''A'', ''''] (deployed 7 exampleVerifier) = Inl Empty_option"
proof -
  let ?d = "deployed 7 exampleVerifier"
  note a = createPrediction_spec [of "''BTC price''" 1 1700000000 "[''Up'', ''Down'']" ?d]
  have pre: "''BTC price'' \<noteq> [] \<and> 2 \<le> length [''Up'', ''Down''] \<and> length [''Up'', ''Down''] \<le> 4 \<and>
             [] \<notin> set [''Up'', ''Down'']"
    by simp
  have len: "length (predictions ?d) = 0"
    by (simp add: deployed_def)
  from a pre obtain s' where s':
    "createPrediction 1 1700000000 ''BTC price'' [''Up'', ''Down''] ?d = Inr (length (predictions ?d), s')"
    "isOpen (predictions s' ! length (predictions ?d))"
    "decryptedCounts s' (length (predictions ?d)) = replicate (length [''Up'', ''Down'']) 0"
    by blast
  have m: "market = s'"
    using s'(1) by (simp add: market_def)
  have 1: "createPrediction 1 1700000000 ''BTC price'' [''Up'', ''Down''] ?d = Inr (0, market)"
    using s'(1) len m by simp
  have 2: "isOpen (predictions market ! 0)"
    using s'(2) len m by simp
  have 3: "decryptedCounts market 0 = [0, 0]"
    using s'(3) len m by (simp add: numeral_2_eq_2)
  have 4: "createPrediction 1 1700000000 ''X'' [''A''] ?d = Inl Options_must_be_2_4"
    using createPrediction_spec [of "''X''" 1 1700000000 "[''A'']" ?d] by simp
  have 5: "createPrediction 1 1700000000 ''X'' [''A'', ''B'', ''C'', ''D'', ''E''] ?d = Inl Options_must_be_2_4"
    using createPrediction_spec [of "''X''" 1 1700000000 "[''A'', ''B'', ''C'', ''D'', ''E'']" ?d] by simp
  have 6: "createPrediction 1 1700000000 '''' [''A'', ''B''] ?d = Inl Name_required"
    using createPrediction_spec [of "''''" 1 1700000000 "[''A'', ''B'']" ?d] by simp
  have 7: "createPrediction 1 1700000000 ''X'' [''A'', ''''] ?d = Inl Empty_option"
    using createPrediction_spec [of "''X''" 1 1700000000 "[''A'', '''']" ?d] by simp
  from 1 2 3 4 5 6 7 show ?thesis by blast
qed

subsection \<open>C7: unknown ids, and the views\<close>

text \<open>
  C7. With an id that is not below the number of predictions, \<^verbatim>\<open>getPrediction\<close>,
  \<^verbatim>\<open>getEncryptedCounts\<close>, \<^verbatim>\<open>hasAddressVoted\<close>, \<^verbatim>\<open>submitChoice\<close> and \<^verbatim>\<open>closePrediction\<close>
  all fail with \<open>InvalidPrediction\<close>; with an id below it the three views return what is
  stored. \<^verbatim>\<open>getPredictionCount\<close> takes no id and returns the number of predictions. A
  call of a view leaves the state as it was.
\<close>

theorem unknown_id_and_views:
  "(\<not> predictionId < length (predictions s) \<longrightarrow>
      getPrediction predictionId s = Inl Invalid_prediction \<and>
      getEncryptedCounts predictionId s = Inl Invalid_prediction \<and>
      hasAddressVoted predictionId a s = Inl Invalid_prediction \<and>
      submitChoice u predictionId e inputProof s = Inl Invalid_prediction \<and>
      closePrediction predictionId s = Inl Invalid_prediction) \<and>
   condition_of Invalid_prediction = InvalidPrediction \<and>
   (predictionId < length (predictions s) \<longrightarrow>
      getPrediction predictionId s =
        Inr (name (predictions s ! predictionId), options (predictions s ! predictionId),
             encryptedCounts (predictions s ! predictionId), isOpen (predictions s ! predictionId),
             createdAt (predictions s ! predictionId)) \<and>
      getEncryptedCounts predictionId s = Inr (encryptedCounts (predictions s ! predictionId)) \<and>
      hasAddressVoted predictionId a s = Inr (hasVoted s predictionId a)) \<and>
   getPredictionCount s = Inr (length (predictions s)) \<and>
   execute (GetPrediction predictionId) s = s \<and>
   execute (GetEncryptedCounts predictionId) s = s \<and>
   execute (HasAddressVoted predictionId a) s = s \<and>
   execute GetPredictionCount s = s"
  by (simp add: getPrediction_eq getEncryptedCounts_eq hasAddressVoted_def getPredictionCount_def
                submitChoice_eq closePrediction_eq)

theorem unknown_id_and_views_witness:
  "getPrediction 99 market = Inl Invalid_prediction \<and>
   getEncryptedCounts 99 market = Inl Invalid_prediction \<and>
   hasAddressVoted 99 2 market = Inl Invalid_prediction \<and>
   submitChoice 2 99 1 [5] market = Inl Invalid_prediction \<and>
   closePrediction 99 market = Inl Invalid_prediction \<and>
   getPredictionCount market = Inr 1 \<and>
   getEncryptedCounts 0 market = Inr [1, 2] \<and>
   getPrediction 0 market = Inr (''BTC price'', [''Up'', ''Down''], [1, 2], True, 1700000000)"
proof -
  have pre: "\<not> 99 < length (predictions market)" "0 < length (predictions market)"
    by (simp_all add: market_fields)
  note a = unknown_id_and_views [of 99 market 2 2 1 "[5]"]
  note b = unknown_id_and_views [of 0 market 2 2 1 "[5]"]
  have "getPredictionCount market = Inr 1"
    using a by (simp add: market_fields)
  moreover have "getEncryptedCounts 0 market = Inr [1, 2]"
    using b pre by (simp add: market_fields)
  moreover have "getPrediction 0 market = Inr (''BTC price'', [''Up'', ''Down''], [1, 2], True, 1700000000)"
    using b pre by (simp add: market_fields)
  ultimately show ?thesis using a pre by blast
qed

subsection \<open>C8: the vote ledger\<close>

text \<open>
  C8. In a reachable state no address has voted on a prediction that is yet to be created,
  so \<^verbatim>\<open>hasAddressVoted\<close> is false for every address on a prediction just created. A
  successful vote of an address on a prediction makes \<^verbatim>\<open>hasAddressVoted\<close> true for that pair
  and changes the ledger for no other pair. A call makes the entry of a pair true exactly
  when it is a successful vote of that address on that prediction, and an entry that is true
  stays true under every sequence of calls.
\<close>

theorem hasAddressVoted_ledger:
  assumes "reachable s"
  shows "(\<forall>u ts nm opts n s'. createPrediction u ts nm opts s = Inr (n, s') \<longrightarrow>
            hasAddressVoted n a s' = Inr False) \<and>
         (\<forall>e inputProof s'. submitChoice a predictionId e inputProof s = Inr s' \<longrightarrow>
            hasAddressVoted predictionId a s' = Inr True \<and>
            (\<forall>n b. (n, b) \<noteq> (predictionId, a) \<longrightarrow> hasVoted s' n b = hasVoted s n b)) \<and>
         (\<forall>c. hasVoted (execute c s) predictionId a \<longleftrightarrow>
            hasVoted s predictionId a \<or>
            (\<exists>e inputProof. c = SubmitChoice a predictionId e inputProof \<and> failure c s = None)) \<and>
         (\<forall>cs. hasVoted s predictionId a \<longrightarrow> hasVoted (run cs s) predictionId a)"
proof -
  have lb: "\<not> hasVoted s (length (predictions s)) a"
    using reachable_ledgerBounded [OF assms] by (auto simp: ledgerBounded_def)
  have new: "hasAddressVoted n a s' = Inr False"
    if "createPrediction u ts nm opts s = Inr (n, s')" for u ts nm opts n s'
    using that lb by (auto simp: createPrediction_eq hasAddressVoted_def split: if_splits)
  have vote: "hasAddressVoted predictionId a s' = Inr True \<and>
            (\<forall>n b. (n, b) \<noteq> (predictionId, a) \<longrightarrow> hasVoted s' n b = hasVoted s n b)"
    if "submitChoice a predictionId e inputProof s = Inr s'" for e inputProof s'
    using submitChoice_InrD [OF that]
    by (auto simp: hasAddressVoted_def voteApplied_simple split: if_splits)
  show ?thesis
    using new vote hasVoted_execute [of _ s predictionId a] hasVoted_run [of s predictionId a]
    by blast
qed

theorem hasAddressVoted_ledger_witness:
  "hasAddressVoted 0 2 market = Inr False \<and>
   hasAddressVoted 0 2 (execute (SubmitChoice 2 0 1 [5]) twoMarkets) = Inr True \<and>
   hasAddressVoted 0 4 (execute (SubmitChoice 2 0 1 [5]) twoMarkets) = Inr False \<and>
   hasAddressVoted 1 2 (execute (SubmitChoice 2 0 1 [5]) twoMarkets) = Inr False \<and>
   hasVoted (run [ClosePrediction 0, SubmitChoice 2 0 0 [6]] (execute (SubmitChoice 2 0 1 [5]) twoMarkets)) 0 2"
proof -
  let ?d = "deployed 7 exampleVerifier"
  let ?t = "execute (SubmitChoice 2 0 1 [5]) twoMarkets"
  have c: "createPrediction 1 1700000000 ''BTC price'' [''Up'', ''Down''] ?d = Inr (0, market)"
    by (simp add: market_def createPrediction_eq deployed_def)
  note d = hasAddressVoted_ledger [OF reachable_deployed, of 7 exampleVerifier 2 0]
  have 1: "hasAddressVoted 0 2 market = Inr False"
    by (rule d [THEN conjunct1, rule_format, OF c])
  have ok: "submitChoice 2 0 1 [5] twoMarkets = Inr ?t"
    by (simp add: submitChoice_eq twoMarkets_fields market_fields exampleVerifier_def)
  note a = hasAddressVoted_ledger [OF twoMarkets_reachable, of 2 0]
  note v = a [THEN conjunct2, THEN conjunct1, rule_format, OF ok]
  have 2: "hasAddressVoted 0 2 ?t = Inr True"
    by (rule v [THEN conjunct1])
  have o: "hasVoted ?t n b = hasVoted twoMarkets n b" if "(n, b) \<noteq> (0, 2)" for n b
    by (rule v [THEN conjunct2, rule_format, OF that])
  have len: "length (predictions ?t) = 2"
    by (simp only: execute_vote_length twoMarkets_fields)
  have 3: "hasAddressVoted 0 4 ?t = Inr False"
    using o [of 0 4] len by (simp add: hasAddressVoted_def twoMarkets_fields del: execute.simps)
  have 4: "hasAddressVoted 1 2 ?t = Inr False"
    using o [of 1 2] len by (simp add: hasAddressVoted_def twoMarkets_fields del: execute.simps)
  have h: "hasVoted ?t 0 2"
    using 2 by (auto simp: hasAddressVoted_def simp del: execute.simps split: if_splits)
  note r = hasAddressVoted_ledger [OF reachable_execute [OF twoMarkets_reachable],
      of "SubmitChoice 2 0 1 [5]" 2 0]
  have 5: "hasVoted (run [ClosePrediction 0, SubmitChoice 2 0 0 [6]] ?t) 0 2"
    by (rule r [THEN conjunct2, THEN conjunct2, THEN conjunct2, rule_format, OF h])
  from 1 2 3 4 5 show ?thesis by (intro conjI)
qed

subsection \<open>C9: other predictions are left alone\<close>

text \<open>
  C9. In a reachable state, neither closing prediction \<open>x\<close> nor voting on prediction \<open>x\<close>
  changes anything of another stored prediction \<open>y\<close>: its record (name, options, counter
  handles, \<open>isOpen\<close>, \<open>createdAt\<close>) is the same, its vote records are the same, and its
  counters decrypt to the same values. The number of predictions is the same as well.
\<close>

theorem sibling_unaffected:
  assumes "reachable s" "y \<noteq> x" "y < length (predictions s)"
  shows "length (predictions (execute (ClosePrediction x) s)) = length (predictions s) \<and>
         predictions (execute (ClosePrediction x) s) ! y = predictions s ! y \<and>
         hasVoted (execute (ClosePrediction x) s) y = hasVoted s y \<and>
         decryptedCounts (execute (ClosePrediction x) s) y = decryptedCounts s y \<and>
         length (predictions (execute (SubmitChoice u x e inputProof) s)) = length (predictions s) \<and>
         predictions (execute (SubmitChoice u x e inputProof) s) ! y = predictions s ! y \<and>
         hasVoted (execute (SubmitChoice u x e inputProof) s) y = hasVoted s y \<and>
         decryptedCounts (execute (SubmitChoice u x e inputProof) s) y = decryptedCounts s y"
proof -
  have 1: "length (predictions (execute (ClosePrediction x) s)) = length (predictions s)"
    "predictions (execute (ClosePrediction x) s) ! y = predictions s ! y"
    "hasVoted (execute (ClosePrediction x) s) y = hasVoted s y"
    using assms(2) by (simp_all add: closePrediction_eq)
  have 2: "decryptedCounts (execute (ClosePrediction x) s) y = decryptedCounts s y"
    by (rule decrypted_frame [OF assms(1,3)]) simp
  have 3: "predictions (execute (SubmitChoice u x e inputProof) s) ! y = predictions s ! y"
    "hasVoted (execute (SubmitChoice u x e inputProof) s) y = hasVoted s y"
    using assms(2) by (simp_all add: submitChoice_eq voteApplied_other voteApplied_simple split: option.splits)
  have 4: "decryptedCounts (execute (SubmitChoice u x e inputProof) s) y = decryptedCounts s y"
    by (rule decrypted_frame [OF assms(1,3)]) (use assms(2) in simp)
  from 1 2 3 4 execute_vote_length [of u x e inputProof s] show ?thesis by (intro conjI)
qed

theorem sibling_unaffected_witness:
  "closePrediction 0 twoMarkets = Inr (execute (ClosePrediction 0) twoMarkets) \<and>
   \<not> isOpen (predictions (execute (ClosePrediction 0) twoMarkets) ! 0) \<and>
   predictions (execute (ClosePrediction 0) twoMarkets) ! 1 = predictions twoMarkets ! 1 \<and>
   isOpen (predictions (execute (ClosePrediction 0) twoMarkets) ! 1) \<and>
   submitChoice 2 0 1 [5] twoMarkets = Inr (execute (SubmitChoice 2 0 1 [5]) twoMarkets) \<and>
   predictions (execute (SubmitChoice 2 0 1 [5]) twoMarkets) ! 1 = predictions twoMarkets ! 1 \<and>
   decryptedCounts (execute (SubmitChoice 2 0 1 [5]) twoMarkets) 1 = decryptedCounts twoMarkets 1"
proof -
  have pre: "(1::nat) \<noteq> 0" "1 < length (predictions twoMarkets)"
    by (simp_all add: twoMarkets_fields)
  note a = sibling_unaffected [OF twoMarkets_reachable pre, of 2 1 "[5]"]
  have c: "closePrediction 0 twoMarkets = Inr (execute (ClosePrediction 0) twoMarkets)"
    by (simp add: closePrediction_eq twoMarkets_fields market_fields)
  have c0: "\<not> isOpen (predictions (execute (ClosePrediction 0) twoMarkets) ! 0)"
    by (simp add: closePrediction_eq twoMarkets_fields market_fields)
  have v: "submitChoice 2 0 1 [5] twoMarkets = Inr (execute (SubmitChoice 2 0 1 [5]) twoMarkets)"
    by (simp add: submitChoice_eq twoMarkets_fields market_fields exampleVerifier_def)
  have o: "isOpen (predictions (execute (ClosePrediction 0) twoMarkets) ! 1)"
    using a twoMarkets_fields(4) by (simp del: execute.simps)
  from a c c0 v o show ?thesis by (simp del: execute.simps)
qed

subsection \<open>C10: a choice outside the options\<close>

text \<open>
  C10. In a reachable state, a vote on an open prediction by a caller who has not voted on
  it, whose input passes the proof and attests to a value that is no index of an option,
  succeeds all the same: the caller is recorded as having voted, every later vote of that
  caller on the prediction fails with \<open>AlreadyVoted\<close>, the event \<open>VoteSubmitted\<close> is emitted
  with the handle of the choice, and every counter decrypts to what it did before. So,
  over any history of calls since deployment, the recorded voters of a prediction are as
  many as its accepted votes, while its decrypted counters add up (in 32-bit arithmetic, and
  as numbers while there are fewer than \<open>2 ^ 32\<close> of them) to the number of accepted votes
  whose choice was the index of an option, which can be fewer.
\<close>

theorem out_of_range_vote:
  "(reachable s \<and> predictionId < length (predictions s) \<and>
    isOpen (predictions s ! predictionId) \<and> \<not> hasVoted s predictionId u \<and>
    verifier (fhe s) e inputProof = Some c \<and>
    length (options (predictions s ! predictionId)) \<le> unat c \<longrightarrow>
      (\<exists>s'. submitChoice u predictionId e inputProof s = Inr s' \<and>
            hasVoted s' predictionId u \<and>
            (\<forall>e' inputProof'. submitChoice u predictionId e' inputProof' s' = Inl Already_voted) \<and>
            events s' = events s @ [VoteSubmitted predictionId u (nextHandle (fhe s))] \<and>
            decryptedCounts s' predictionId = decryptedCounts s predictionId \<and>
            card (voters s' predictionId) = card (voters s predictionId) + 1)) \<and>
   (predictionId < length (predictions (run cs (deployed this v))) \<longrightarrow>
      card (voters (run cs (deployed this v)) predictionId) =
        countCalls (acceptedVote predictionId) cs (deployed this v) \<and>
      sum_list (decryptedCounts (run cs (deployed this v)) predictionId) =
        of_nat (countCalls (inRangeVote predictionId) cs (deployed this v)) \<and>
      countCalls (inRangeVote predictionId) cs (deployed this v) \<le>
        countCalls (acceptedVote predictionId) cs (deployed this v) \<and>
      (countCalls (inRangeVote predictionId) cs (deployed this v) < 2 ^ 32 \<longrightarrow>
         sum_list (map unat (decryptedCounts (run cs (deployed this v)) predictionId)) =
           countCalls (inRangeVote predictionId) cs (deployed this v)))"
proof -
  have step: "\<exists>s'. submitChoice u predictionId e inputProof s = Inr s' \<and>
            hasVoted s' predictionId u \<and>
            (\<forall>e' inputProof'. submitChoice u predictionId e' inputProof' s' = Inl Already_voted) \<and>
            events s' = events s @ [VoteSubmitted predictionId u (nextHandle (fhe s))] \<and>
            decryptedCounts s' predictionId = decryptedCounts s predictionId \<and>
            card (voters s' predictionId) = card (voters s predictionId) + 1"
    if r: "reachable s" and n: "predictionId < length (predictions s)"
      and o: "isOpen (predictions s ! predictionId)" and h: "\<not> hasVoted s predictionId u"
      and v: "verifier (fhe s) e inputProof = Some c"
      and c: "length (options (predictions s ! predictionId)) \<le> unat c"
  proof -
    let ?s = "voteApplied u predictionId e c s"
    have 1: "submitChoice u predictionId e inputProof s = Inr ?s"
      using n o h v by (simp add: submitChoice_eq)
    have 2: "hasVoted ?s predictionId u"
      by (simp add: voteApplied_simple)
    have "isOpen (predictions ?s ! predictionId)"
      using o by (simp add: voteApplied_counts [OF n])
    then have 3: "submitChoice u predictionId e' inputProof' ?s = Inl Already_voted" for e' inputProof'
      using n by (simp add: submitChoice_eq voteApplied_simple)
    have 4: "events ?s = events s @ [VoteSubmitted predictionId u (nextHandle (fhe s))]"
      by (simp add: voteApplied_simple)
    have 5: "decryptedCounts ?s predictionId = decryptedCounts s predictionId"
      by (rule vote_out_of_range [OF r n c])
    have a: "acceptedVote predictionId (SubmitChoice u predictionId e inputProof) s"
      using 1 by simp
    have ex: "execute (SubmitChoice u predictionId e inputProof) s = ?s"
      using 1 by simp
    have 6: "card (voters ?s predictionId) = card (voters s predictionId) + 1"
      using voters_execute [of "SubmitChoice u predictionId e inputProof" s predictionId] a
      by (simp only: ex if_True)
    from 1 2 3 4 5 6 show ?thesis by blast
  qed
  have hist: "card (voters (run cs (deployed this v)) predictionId) =
        countCalls (acceptedVote predictionId) cs (deployed this v) \<and>
      sum_list (decryptedCounts (run cs (deployed this v)) predictionId) =
        of_nat (countCalls (inRangeVote predictionId) cs (deployed this v)) \<and>
      countCalls (inRangeVote predictionId) cs (deployed this v) \<le>
        countCalls (acceptedVote predictionId) cs (deployed this v) \<and>
      (countCalls (inRangeVote predictionId) cs (deployed this v) < 2 ^ 32 \<longrightarrow>
         sum_list (map unat (decryptedCounts (run cs (deployed this v)) predictionId)) =
           countCalls (inRangeVote predictionId) cs (deployed this v))"
    if n: "predictionId < length (predictions (run cs (deployed this v)))"
  proof -
    let ?d = "deployed this v"
    have 1: "card (voters (run cs ?d) predictionId) = countCalls (acceptedVote predictionId) cs ?d"
      by (simp add: voters_run tallySum_deployed)
    have "tallySum32 (run cs ?d) predictionId = of_nat (countCalls (inRangeVote predictionId) cs ?d)"
      by (simp add: tallySum32_run [OF reachable_deployed] tallySum_deployed)
    then have 2: "sum_list (decryptedCounts (run cs ?d) predictionId) =
        of_nat (countCalls (inRangeVote predictionId) cs ?d)"
      using n by (simp add: tallySum32_def)
    have 3: "sum_list (map unat (decryptedCounts (run cs ?d) predictionId)) =
           countCalls (inRangeVote predictionId) cs ?d"
      if "countCalls (inRangeVote predictionId) cs ?d < 2 ^ 32"
    proof -
      have "tallySum (run cs ?d) predictionId = countCalls (inRangeVote predictionId) cs ?d"
        using tallySum_run [OF reachable_deployed, of this v predictionId cs] that
        by (simp add: tallySum_deployed)
      then show ?thesis using n by (simp add: tallySum_def)
    qed
    from 1 2 3 inRange_le_accepted [of predictionId cs ?d] show ?thesis by blast
  qed
  from step hist show ?thesis by blast
qed

theorem out_of_range_vote_witness:
  "submitChoice 2 0 7 [5] market = Inr (execute (SubmitChoice 2 0 7 [5]) market) \<and>
   hasVoted (execute (SubmitChoice 2 0 7 [5]) market) 0 2 \<and>
   decryptedCounts (execute (SubmitChoice 2 0 7 [5]) market) 0 = [0, 0] \<and>
   card (voters (run [CreatePrediction 1 1700000000 ''BTC price'' [''Up'', ''Down''],
                      SubmitChoice 2 0 7 [5], SubmitChoice 4 0 1 [5]]
                   (deployed 7 exampleVerifier)) 0) = 2 \<and>
   sum_list (map unat (decryptedCounts
       (run [CreatePrediction 1 1700000000 ''BTC price'' [''Up'', ''Down''],
             SubmitChoice 2 0 7 [5], SubmitChoice 4 0 1 [5]]
          (deployed 7 exampleVerifier)) 0)) = 1"
proof -
  let ?d = "deployed 7 exampleVerifier"
  let ?h = "[CreatePrediction 1 1700000000 ''BTC price'' [''Up'', ''Down''],
             SubmitChoice 2 0 7 [5], SubmitChoice 4 0 1 [5]]"
  note a = out_of_range_vote [of market 0 2 7 "[5]" 7 ?h 7 exampleVerifier]
  have pre: "reachable market \<and> 0 < length (predictions market) \<and>
    isOpen (predictions market ! 0) \<and> \<not> hasVoted market 0 2 \<and>
    verifier (fhe market) 7 [5] = Some 7 \<and>
    length (options (predictions market ! 0)) \<le> unat (7 :: uint32)"
    by (simp add: market_reachable market_fields exampleVerifier_def)
  from a [THEN conjunct1, rule_format, OF pre] obtain s' where
    s': "submitChoice 2 0 7 [5] market = Inr s'" "hasVoted s' 0 2"
      "decryptedCounts s' 0 = decryptedCounts market 0"
    by blast
  have ex: "execute (SubmitChoice 2 0 7 [5]) market = s'"
    using s'(1) by simp
  have 1: "submitChoice 2 0 7 [5] market = Inr (execute (SubmitChoice 2 0 7 [5]) market)"
    using s'(1) by (simp only: ex)
  have 2: "hasVoted (execute (SubmitChoice 2 0 7 [5]) market) 0 2"
    using s'(2) by (simp only: ex)
  have 3: "decryptedCounts (execute (SubmitChoice 2 0 7 [5]) market) 0 = [0, 0]"
    using s'(3) by (simp add: ex decryptedCounts_def market_fields del: execute.simps)
  have r: "run ?h ?d = execute (SubmitChoice 4 0 1 [5]) (voteApplied 2 0 7 7 market)"
    by (simp add: market_def [symmetric] outsider_vote del: execute.simps)
  have n: "0 < length (predictions (run ?h ?d))"
    by (simp only: r execute_vote_length outsider_fields)
  have acc: "countCalls (acceptedVote 0) ?h ?d = 2"
    by (simp add: market_def [symmetric] outsider_vote submitChoice_eq market_fields
          outsider_fields exampleVerifier_def del: execute.simps)
  have inr: "countCalls (inRangeVote 0) ?h ?d = 1"
    by (simp add: market_def [symmetric] outsider_vote submitChoice_eq market_fields
          outsider_fields exampleVerifier_def del: execute.simps)
  note b = a [THEN conjunct2, rule_format, OF n]
  have 4: "card (voters (run ?h ?d) 0) = 2"
    using b [THEN conjunct1] by (simp only: acc)
  have "countCalls (inRangeVote 0) ?h ?d < 2 ^ 32"
    by (simp only: inr) simp
  from b [THEN conjunct2, THEN conjunct2, THEN conjunct2, rule_format, OF this]
  have 5: "sum_list (map unat (decryptedCounts (run ?h ?d) 0)) = 1"
    by (simp only: inr)
  from 1 2 3 4 5 show ?thesis by (intro conjI)
qed

end
